theory Spec2Isabelle
  imports Complex_Main "HOL-Library.Product_Lexorder" "HOL-Library.Multiset"
begin

section \<open>Python values shared by all variants\<close>

text \<open>
  Coordinates are Python tuples of two unbounded ints; tuples compare
  lexicographically (the product order imported above).  A Python exception is a
  value of \<open>py_error\<close>; a computation that may raise returns \<open>py_error + 'a\<close>.
  \<open>Diverges\<close> is not an exception: it is the outcome of a loop that never ends.
\<close>

type_synonym Coord = "int \<times> int"

datatype py_error = IndexError | KeyError | AssertionError | ValueError | RecursionError | Diverges

definition bindE :: "py_error + 'a \<Rightarrow> ('a \<Rightarrow> py_error + 'b) \<Rightarrow> py_error + 'b" where
  "bindE m f = (case m of Inl e \<Rightarrow> Inl e | Inr x \<Rightarrow> f x)"

text \<open>\<open>xs[i]\<close>: an index below zero counts from the end, anything outside raises.\<close>

definition py_get :: "'a list \<Rightarrow> int \<Rightarrow> py_error + 'a" where
  "py_get xs i =
     (if 0 \<le> i \<and> i < int (length xs) then Inr (xs ! nat i)
      else if i < 0 \<and> - int (length xs) \<le> i then Inr (xs ! nat (int (length xs) + i))
      else Inl IndexError)"

text \<open>\<open>xs[i] = v\<close>, with the same index rule.\<close>

definition py_set :: "'a list \<Rightarrow> int \<Rightarrow> 'a \<Rightarrow> py_error + 'a list" where
  "py_set xs i v =
     (if 0 \<le> i \<and> i < int (length xs) then Inr (xs[nat i := v])
      else if i < 0 \<and> - int (length xs) \<le> i then Inr (xs[nat (int (length xs) + i) := v])
      else Inl IndexError)"

text \<open>\<open>m[r][c]\<close> and \<open>m[r][c] = v\<close> on a list of lists.\<close>

definition py_get2 :: "'a list list \<Rightarrow> int \<Rightarrow> int \<Rightarrow> py_error + 'a" where
  "py_get2 m r c = bindE (py_get m r) (\<lambda>row. py_get row c)"

definition py_set2 :: "'a list list \<Rightarrow> int \<Rightarrow> int \<Rightarrow> 'a \<Rightarrow> py_error + 'a list list" where
  "py_set2 m r c v =
     bindE (py_get m r) (\<lambda>row. bindE (py_set row c v) (\<lambda>row'. py_set m r row'))"

text \<open>
  A list comprehension \<open>[p for p in cand if test(p)]\<close> whose test may raise: the
  candidates are tested left to right and the first exception ends the comprehension.
\<close>

fun filterE :: "('a \<Rightarrow> py_error + bool) \<Rightarrow> 'a list \<Rightarrow> py_error + 'a list" where
  "filterE t [] = Inr []"
| "filterE t (x # xs) =
     bindE (t x) (\<lambda>b. bindE (filterE t xs) (\<lambda>ys. Inr (if b then x # ys else ys)))"

text \<open>
  A dict is an association list, the newest binding first: \<open>d[k] = v\<close> puts
  \<open>(k, v)\<close> in front, \<open>map_of\<close> reads the newest binding, and \<open>d[k]\<close> on a missing
  key raises.
\<close>

definition lookupE :: "('k \<times> 'v) list \<Rightarrow> 'k \<Rightarrow> py_error + 'v" where
  "lookupE d k = (case map_of d k of None \<Rightarrow> Inl KeyError | Some v \<Rightarrow> Inr v)"

text \<open>A \<open>for\<close> loop whose body may raise: the first exception ends the loop.\<close>

fun foldE :: "('a \<Rightarrow> 's \<Rightarrow> py_error + 's) \<Rightarrow> 'a list \<Rightarrow> 's \<Rightarrow> py_error + 's" where
  "foldE f [] s = Inr s"
| "foldE f (x # xs) s = bindE (f x s) (foldE f xs)"

section \<open>OneShot/DynamicMazeGen(ChatGPT5 - Auto)/maze.py: Grid\<close>

text \<open>
  \<open>class Grid\<close>.  The field \<open>_dirty\<close> is the set of cells changed since the last
  redraw.
\<close>

record Grid =
  rows :: int
  cols :: int
  wall :: int
  free :: int
  grid :: "int list list"
  start :: Coord
  goal :: Coord
  dirty :: "Coord set"

text \<open>\<open>Grid.__init__\<close>: the assertion, then a \<open>rows\<close> by \<open>cols\<close> matrix of walls.\<close>

definition Grid_init :: "int \<Rightarrow> int \<Rightarrow> py_error + Grid" where
  "Grid_init rws cls =
     (if rws mod 2 = 1 \<and> cls mod 2 = 1
      then Inr \<lparr> rows = rws, cols = cls, wall = 1, free = 0,
                 grid = replicate (nat rws) (replicate (nat cls) 1),
                 start = (1, 1), goal = (rws - 2, cls - 2), dirty = {} \<rparr>
      else Inl AssertionError)"

definition in_bounds :: "Grid \<Rightarrow> int \<Rightarrow> int \<Rightarrow> bool" where
  "in_bounds g r c \<longleftrightarrow> 0 \<le> r \<and> r < rows g \<and> 0 \<le> c \<and> c < cols g"

definition is_wall :: "Grid \<Rightarrow> Coord \<Rightarrow> py_error + bool" where
  "is_wall g rc = (case rc of (r, c) \<Rightarrow> bindE (py_get2 (grid g) r c) (\<lambda>v. Inr (v = wall g)))"

definition set_free :: "Grid \<Rightarrow> Coord \<Rightarrow> py_error + Grid" where
  "set_free g rc = (case rc of (r, c) \<Rightarrow>
     bindE (py_get2 (grid g) r c) (\<lambda>v.
       if v \<noteq> free g
       then bindE (py_set2 (grid g) r c (free g))
              (\<lambda>m. Inr (g\<lparr> grid := m, dirty := insert rc (dirty g) \<rparr>))
       else Inr g))"

definition set_wall :: "Grid \<Rightarrow> Coord \<Rightarrow> py_error + Grid" where
  "set_wall g rc = (case rc of (r, c) \<Rightarrow>
     bindE (py_get2 (grid g) r c) (\<lambda>v.
       if v \<noteq> wall g
       then bindE (py_set2 (grid g) r c (wall g))
              (\<lambda>m. Inr (g\<lparr> grid := m, dirty := insert rc (dirty g) \<rparr>))
       else Inr g))"

definition consume_dirty :: "Grid \<Rightarrow> Coord set \<times> Grid" where
  "consume_dirty g = (dirty g, g\<lparr> dirty := {} \<rparr>)"

definition carve_cell :: "Grid \<Rightarrow> int \<Rightarrow> int \<Rightarrow> py_error + Grid" where
  "carve_cell g r c = set_free g (r, c)"

definition carve_passage :: "Grid \<Rightarrow> Coord \<Rightarrow> Coord \<Rightarrow> py_error + Grid" where
  "carve_passage g a b = (case a of (ar, ac) \<Rightarrow> case b of (br, bc) \<Rightarrow>
     bindE (set_free g a) (\<lambda>g1.
     bindE (set_free g1 b) (\<lambda>g2.
       set_free g2 ((ar + br) div 2, (ac + bc) div 2))))"

definition ready_for_search :: "Grid \<Rightarrow> py_error + bool" where
  "ready_for_search g =
     bindE (is_wall g (start g)) (\<lambda>ws.
       if ws then Inr False else bindE (is_wall g (goal g)) (\<lambda>wg. Inr (\<not> wg)))"

text \<open>\<open>neighbors_cells\<close>: cell-to-cell offsets in the order up, right, down, left.\<close>

definition neighbors_cells :: "Grid \<Rightarrow> Coord \<Rightarrow> Coord list" where
  "neighbors_cells g rc = (case rc of (r, c) \<Rightarrow>
     filter (\<lambda>p. in_bounds g (fst p) (snd p))
       [(r + (-2), c + 0), (r + 0, c + 2), (r + 2, c + 0), (r + 0, c + (-2))])"

definition passable_neighbors :: "Grid \<Rightarrow> Coord \<Rightarrow> py_error + Coord list" where
  "passable_neighbors g rc = (case rc of (r, c) \<Rightarrow>
     filterE (\<lambda>p. if in_bounds g (fst p) (snd p)
                   then bindE (is_wall g p) (\<lambda>w. Inr (\<not> w)) else Inr False)
       [(r + (-1), c + 0), (r + 0, c + 1), (r + 1, c + 0), (r + 0, c + (-1))])"

definition finalize_after_generation :: "Grid \<Rightarrow> py_error + Grid" where
  "finalize_after_generation g = bindE (set_free g (start g)) (\<lambda>g1. set_free g1 (goal g1))"

text \<open>
  \<open>_neighbors\<close> of \<open>BFS\<close>, \<open>DFS\<close>, \<open>Dijkstra\<close> and \<open>AStar\<close> in search.py (the four
  bodies are the same text): the candidates up, right, down, left, kept when in
  bounds and not a wall.
\<close>

definition search_neighbors :: "Grid \<Rightarrow> Coord \<Rightarrow> py_error + Coord list" where
  "search_neighbors g rc = (case rc of (r, c) \<Rightarrow>
     filterE (\<lambda>p. if in_bounds g (fst p) (snd p)
                   then bindE (is_wall g p) (\<lambda>w. Inr (\<not> w)) else Inr False)
       [(r - 1, c), (r, c + 1), (r + 1, c), (r, c - 1)])"

text \<open>
  The matrix of a grid object agrees with its \<open>rows\<close> and \<open>cols\<close> fields, and the two
  cell values differ.  \<open>Grid.__init__\<close> establishes this and no method breaks it.
\<close>

definition wf_grid :: "Grid \<Rightarrow> bool" where
  "wf_grid g \<longleftrightarrow>
     length (grid g) = nat (rows g) \<and> list_all (\<lambda>row. length row = nat (cols g)) (grid g)
     \<and> wall g \<noteq> free g"

text \<open>The cell value at an in-bounds coordinate, read without Python's index rule.\<close>

definition cell :: "Grid \<Rightarrow> Coord \<Rightarrow> int" where
  "cell g rc = grid g ! nat (fst rc) ! nat (snd rc)"

section \<open>OneShot/DynamicMazeGen(ChatGPT5 - Auto)/maze.py: SeededRNG\<close>

text \<open>
  \<open>SeededRNG\<close> wraps \<open>random.Random(seed)\<close>, the standard library's generator, which
  is outside the repository.  What the library yields for a seed is a parameter:
  \<open>draws n\<close> is its n-th raw draw and \<open>pos\<close> counts the draws taken.  \<open>randint(a, b)\<close>
  raises \<open>ValueError\<close> on an empty range and otherwise reduces one raw draw into
  \<open>a..b\<close>; \<open>shuffle\<close> is the library's loop
  \<open>for i in reversed(range(1, len(x))): j = randbelow(i + 1); x[i], x[j] = x[j], x[i]\<close>.
  Every value of the range comes from some raw draw, so a statement about all
  draw sequences covers whatever the library returns.
\<close>

record SeededRNG =
  seed :: "int option"
  draws :: "nat \<Rightarrow> nat"
  pos :: nat

definition SeededRNG_init :: "(int option \<Rightarrow> nat \<Rightarrow> nat) \<Rightarrow> int option \<Rightarrow> SeededRNG" where
  "SeededRNG_init library sd = \<lparr> seed = sd, draws = library sd, pos = 0 \<rparr>"

definition randint :: "SeededRNG \<Rightarrow> int \<Rightarrow> int \<Rightarrow> py_error + int \<times> SeededRNG" where
  "randint rng a b =
     (if b < a then Inl ValueError
      else Inr (a + int (draws rng (pos rng) mod nat (b - a + 1)), rng\<lparr> pos := pos rng + 1 \<rparr>))"

fun shuffle_loop :: "nat \<Rightarrow> SeededRNG \<Rightarrow> 'a list \<Rightarrow> 'a list \<times> SeededRNG" where
  "shuffle_loop 0 rng xs = (xs, rng)"
| "shuffle_loop (Suc k) rng xs =
     (let i = Suc k; j = draws rng (pos rng) mod (i + 1)
      in shuffle_loop k (rng\<lparr> pos := pos rng + 1 \<rparr>) (xs[i := xs ! j, j := xs ! i]))"

definition shuffle :: "SeededRNG \<Rightarrow> 'a list \<Rightarrow> 'a list \<times> SeededRNG" where
  "shuffle rng xs = shuffle_loop (length xs - 1) rng xs"

section \<open>OneShot/DynamicMazeGen(ChatGPT5 - Auto)/maze.py: PrimGenerator\<close>

text \<open>
  A Python \<open>set\<close> whose elements are only added, removed, tested and sorted is a list
  without duplicates: \<open>add\<close> is \<open>List.insert\<close>, \<open>remove\<close> raises \<open>KeyError\<close> on a missing
  element, \<open>sorted(s)\<close> is \<open>sort\<close>.
\<close>

definition set_remove :: "'a \<Rightarrow> 'a list \<Rightarrow> py_error + 'a list" where
  "set_remove x xs = (if x \<in> set xs then Inr (remove1 x xs) else Inl KeyError)"

record PrimGenerator =
  p_grid :: Grid
  p_rng :: SeededRNG
  frontier :: "Coord list"

definition PrimGenerator_init :: "Grid \<Rightarrow> SeededRNG \<Rightarrow> py_error + PrimGenerator" where
  "PrimGenerator_init g rng =
     bindE (carve_cell g (fst (start g)) (snd (start g))) (\<lambda>g1.
       Inr \<lparr> p_grid = g1, p_rng = rng,
             frontier = fold List.insert (neighbors_cells g1 (start g)) [] \<rparr>)"

definition Prim_step :: "PrimGenerator \<Rightarrow> py_error + bool \<times> PrimGenerator" where
  "Prim_step s =
     (if frontier s = [] then Inr (True, s)
      else
        let sorted_front = sort (frontier s) in
        bindE (randint (p_rng s) 0 (min 7 (int (length sorted_front) - 1))) (\<lambda>(idx, rng1).
        bindE (py_get sorted_front idx) (\<lambda>rc.
        bindE (set_remove rc (frontier s)) (\<lambda>fr1.
        bindE (filterE (\<lambda>n. bindE (is_wall (p_grid s) n) (\<lambda>w. Inr (\<not> w)))
                 (neighbors_cells (p_grid s) rc)) (\<lambda>carved_neighbors.
          if carved_neighbors = []
          then Inr (False,
                 s\<lparr> p_rng := rng1,
                    frontier :=
                      fold (\<lambda>n fr. if in_bounds (p_grid s) (fst n) (snd n)
                                     then List.insert n fr else fr)
                        (neighbors_cells (p_grid s) rc) fr1 \<rparr>)
          else
            let cn = sort carved_neighbors in
            bindE (randint rng1 0 (int (length cn) - 1)) (\<lambda>(idx2, rng2).
            bindE (py_get cn idx2) (\<lambda>neighbor.
            bindE (carve_passage (p_grid s) rc neighbor) (\<lambda>g'.
            bindE (foldE (\<lambda>n fr. if in_bounds g' (fst n) (snd n)
                                   then bindE (is_wall g' n)
                                          (\<lambda>w. Inr (if w then List.insert n fr else fr))
                                   else Inr fr)
                     (neighbors_cells g' rc) fr1) (\<lambda>fr2.
              Inr (False, s\<lparr> p_grid := g', p_rng := rng2, frontier := fr2 \<rparr>))))))))))"

text \<open>
  A driver's \<open>n\<close> calls of \<open>step()\<close>: the values returned, oldest first, and the state
  after the last call.
\<close>

fun Prim_steps :: "nat \<Rightarrow> PrimGenerator \<Rightarrow> py_error + bool list \<times> PrimGenerator" where
  "Prim_steps 0 s = Inr ([], s)"
| "Prim_steps (Suc n) s =
     bindE (Prim_step s) (\<lambda>(d, s1).
     bindE (Prim_steps n s1) (\<lambda>(ds, s2). Inr (d # ds, s2)))"

subsection \<open>Notions used to state properties of the generators\<close>

text \<open>
  Two grid values of the same shape; a logical cell (an in-bounds position with both
  coordinates odd); two positions one cell apart in a cardinal direction, as
  \<open>neighbors_cells\<close> enumerates them; the position between them, as \<open>carve_passage\<close>
  computes it.
\<close>

definition same_shape :: "Grid \<Rightarrow> Grid \<Rightarrow> bool" where
  "same_shape g g' \<longleftrightarrow> rows g' = rows g \<and> cols g' = cols g \<and> wall g' = wall g \<and> free g' = free g
     \<and> start g' = start g \<and> goal g' = goal g"

definition is_cell :: "Grid \<Rightarrow> Coord \<Rightarrow> bool" where
  "is_cell g p \<longleftrightarrow> in_bounds g (fst p) (snd p) \<and> odd (fst p) \<and> odd (snd p)"

definition cell_adj :: "Coord \<Rightarrow> Coord \<Rightarrow> bool" where
  "cell_adj p q \<longleftrightarrow> q = (fst p - 2, snd p) \<or> q = (fst p, snd p + 2)
      \<or> q = (fst p + 2, snd p) \<or> q = (fst p, snd p - 2)"

definition midpoint :: "Coord \<Rightarrow> Coord \<Rightarrow> Coord" where
  "midpoint a b = ((fst a + fst b) div 2, (snd a + snd b) div 2)"

text \<open>
  The invariant of the Prim generator: the grid is well formed, the frontier has no
  duplicate, every frontier cell is a wall cell with a carved cell two steps away,
  and every such cell is in the frontier.
\<close>

definition Prim_inv :: "PrimGenerator \<Rightarrow> bool" where
  "Prim_inv s \<longleftrightarrow> wf_grid (p_grid s) \<and> distinct (frontier s)
     \<and> (\<forall>p\<in>set (frontier s). is_cell (p_grid s) p \<and> cell (p_grid s) p = wall (p_grid s)
            \<and> (\<exists>n\<in>set (neighbors_cells (p_grid s) p). cell (p_grid s) n \<noteq> wall (p_grid s)))
     \<and> (\<forall>p. is_cell (p_grid s) p \<and> cell (p_grid s) p = wall (p_grid s)
            \<and> (\<exists>n\<in>set (neighbors_cells (p_grid s) p). cell (p_grid s) n \<noteq> wall (p_grid s))
            \<longrightarrow> p \<in> set (frontier s))"

text \<open>The logical cells carved so far.\<close>

definition carved_cells :: "Grid \<Rightarrow> Coord set" where
  "carved_cells g = {p. is_cell g p \<and> cell g p \<noteq> wall g}"

text \<open>
  A small grid used to instantiate theorems: three by three, the centre cell and the
  cell to its right carved.
\<close>

definition corridor3 :: Grid where
  "corridor3 = \<lparr> rows = 3, cols = 3, wall = 1, free = 0,
                  grid = [[1, 1, 1], [1, 0, 0], [1, 1, 1]],
                  start = (1, 1), goal = (1, 2), dirty = {} \<rparr>"

text \<open>Another: three by three, the centre cell and the four positions around it carved.\<close>

definition cross3 :: Grid where
  "cross3 = \<lparr> rows = 3, cols = 3, wall = 1, free = 0,
               grid = [[1, 0, 1], [0, 0, 0], [1, 0, 1]],
               start = (1, 1), goal = (1, 2), dirty = {} \<rparr>"

section \<open>OneShot/DynamicMazeGen(GeminiPro)/maze.py: Grid.get_neighbors\<close>

datatype CellType = WALL | PASSAGE

text \<open>The fields of GeminiPro's \<open>Grid\<close> that \<open>is_valid\<close> and \<open>get_neighbors\<close> read.\<close>

record GGrid =
  rows_G :: int
  cols_G :: int
  grid_G :: "CellType list list"
  start_G :: Coord
  goal_G :: Coord

definition GGrid_init :: "int \<Rightarrow> int \<Rightarrow> py_error + GGrid" where
  "GGrid_init rws cls =
     (let R = rws div 2 * 2 + 1; C = cls div 2 * 2 + 1;
          m = replicate (nat R) (replicate (nat C) WALL)
      in bindE (py_set2 m 1 1 PASSAGE) (\<lambda>m'.
           Inr \<lparr> rows_G = R, cols_G = C, grid_G = m', start_G = (1, 1), goal_G = (R - 2, C - 2) \<rparr>))"

definition is_valid :: "GGrid \<Rightarrow> int \<Rightarrow> int \<Rightarrow> bool" where
  "is_valid g r c \<longleftrightarrow> 0 \<le> r \<and> r < rows_G g \<and> 0 \<le> c \<and> c < cols_G g"

definition get_neighbors :: "GGrid \<Rightarrow> int \<Rightarrow> int \<Rightarrow> int \<Rightarrow> bool \<Rightarrow> py_error + Coord list" where
  "get_neighbors g r c step include_walls =
     filterE (\<lambda>p. if is_valid g (fst p) (snd p)
                   then (if include_walls then Inr True
                         else bindE (py_get2 (grid_G g) (fst p) (snd p)) (\<lambda>v. Inr (v = PASSAGE)))
                   else Inr False)
       [(r + (- step), c + 0), (r + step, c + 0), (r + 0, c + (- step)), (r + 0, c + step)]"

definition wf_GGrid :: "GGrid \<Rightarrow> bool" where
  "wf_GGrid g \<longleftrightarrow>
     length (grid_G g) = nat (rows_G g) \<and> list_all (\<lambda>row. length row = nat (cols_G g)) (grid_G g)"

text \<open>
  A small grid of this variant used to instantiate theorems: three by three, the
  centre cell and the four positions around it passages.
\<close>

definition gcross3 :: GGrid where
  "gcross3 = \<lparr> rows_G = 3, cols_G = 3,
                grid_G = [[WALL, PASSAGE, WALL], [PASSAGE, PASSAGE, PASSAGE],
                          [WALL, PASSAGE, WALL]],
                start_G = (1, 1), goal_G = (1, 1) \<rparr>"

section \<open>iterative/DynamixMazeGen(Claude)/maze.py: Maze.is_passage, Maze.neighbors\<close>

text \<open>The fields of the iterative Claude \<open>Maze\<close> that the two methods read.\<close>

record CMaze =
  cell_rows :: int
  cell_cols :: int
  grid_rows :: int
  grid_cols :: int
  grid_C :: "int list list"
  start_C :: Coord
  goal_C :: Coord

text \<open>
  \<open>Maze.__init__\<close>: a matrix of zeros, then every odd/odd position set to 1.  The
  positions \<open>range(1, n, 2)\<close> are inside the matrix, so the assignment is written
  with the list update.
\<close>

definition CMaze_init :: "int \<Rightarrow> int \<Rightarrow> CMaze" where
  "CMaze_init rws cls =
     (let R = 2 * rws + 1; C = 2 * cls + 1
      in \<lparr> cell_rows = rws, cell_cols = cls, grid_rows = R, grid_cols = C,
           grid_C = map (\<lambda>r. map (\<lambda>c. if odd r \<and> odd c then 1 else 0) [0..<nat C]) [0..<nat R],
           start_C = (0, 0), goal_C = (rws - 1, cls - 1) \<rparr>)"

definition is_passage_C :: "CMaze \<Rightarrow> int \<Rightarrow> int \<Rightarrow> py_error + bool" where
  "is_passage_C m r c =
     (if 0 \<le> r \<and> r < grid_rows m \<and> 0 \<le> c \<and> c < grid_cols m
      then bindE (py_get2 (grid_C m) r c) (\<lambda>v. Inr (v = 1))
      else Inr False)"

definition neighbors_C :: "CMaze \<Rightarrow> int \<Rightarrow> int \<Rightarrow> Coord list" where
  "neighbors_C m r c =
     filter (\<lambda>p. 0 \<le> fst p \<and> fst p < cell_rows m \<and> 0 \<le> snd p \<and> snd p < cell_cols m)
       [(r + (-1), c + 0), (r + 0, c + (-1)), (r + 0, c + 1), (r + 1, c + 0)]"


section \<open>iterative/DynamicMazeGen(ChatGPT5 - Auto)/maze.py: Maze.is_passage\<close>

text \<open>The fields of the iterative ChatGPT5 \<open>Maze\<close> that \<open>is_passage\<close> reads.\<close>

record IMaze =
  rows_I :: int
  cols_I :: int
  H :: int
  W :: int
  grid_I :: "int list list"

text \<open>\<open>Maze.__init__\<close>: \<open>ValueError\<close> below one row or column; walls are 1, passages 0.\<close>

definition IMaze_init :: "int \<Rightarrow> int \<Rightarrow> py_error + IMaze" where
  "IMaze_init rws cls =
     (if rws < 1 \<or> cls < 1 then Inl ValueError
      else Inr \<lparr> rows_I = rws, cols_I = cls, H = rws * 2 + 1, W = cls * 2 + 1,
                 grid_I = map (\<lambda>r. map (\<lambda>c. if odd r \<and> odd c then 0 else 1) [0..<nat (cls * 2 + 1)])
                              [0..<nat (rws * 2 + 1)] \<rparr>)"


definition wf_IMaze :: "IMaze \<Rightarrow> bool" where
  "wf_IMaze m \<longleftrightarrow>
     length (grid_I m) = nat (H m) \<and> list_all (\<lambda>row. length row = nat (W m)) (grid_I m)"

section \<open>OneShot/DynamicMazeGen(ChatGPT5 - Auto)/search.py\<close>

text \<open>
  \<open>time.perf_counter()\<close> is outside the repository: every method that reads the
  clock takes the reading it would get as the argument \<open>now\<close>.
\<close>

record EMA =
  alpha :: real
  ema_value :: real
  count :: int

definition EMA_init :: EMA where
  "EMA_init = \<lparr> alpha = 2 / 10, ema_value = 0, count = 0 \<rparr>"

definition EMA_update :: "EMA \<Rightarrow> real \<Rightarrow> EMA" where
  "EMA_update e x =
     e\<lparr> ema_value := (if count e = 0 then x else alpha e * x + (1 - alpha e) * ema_value e),
        count := count e + 1 \<rparr>"

definition manhattan :: "Coord \<Rightarrow> Coord \<Rightarrow> int" where
  "manhattan a b = \<bar>fst a - fst b\<bar> + \<bar>snd a - snd b\<bar>"

text \<open>
  \<open>class IncrementalSearch\<close>: the fields every search has.  \<open>s_grid\<close> is the grid
  object the search was given (\<open>self.grid\<close>), \<open>s_done\<close> is \<open>_done\<close>, \<open>s_dirty\<close> is the
  search's own \<open>_dirty\<close>, \<open>path = None\<close> is \<open>None\<close>.
\<close>

record IncrementalSearch =
  s_grid :: Grid
  s_start :: Coord
  s_goal :: Coord
  s_done :: bool
  explored :: int
  t0 :: real
  t1 :: real
  path :: "Coord list option"
  frames_drawn :: int
  fps_ema :: EMA
  correct_path :: bool
  optimal :: bool
  s_dirty :: "Coord set"

definition begin_search :: "real \<Rightarrow> 'a IncrementalSearch_scheme \<Rightarrow> 'a IncrementalSearch_scheme" where
  "begin_search now s = s\<lparr> t0 := now \<rparr>"

definition is_done :: "'a IncrementalSearch_scheme \<Rightarrow> bool" where
  "is_done s = s_done s"

text \<open>
  \<open>get_metrics\<close>.  The clock readings are floats, and \<open>(a - b) * 1000\<close> is evaluated
  in the interpreter's float arithmetic, which is outside the repository: like the
  clock it is a parameter, \<open>ms a b\<close> being the float that expression yields.
  \<open>int(x)\<close> truncates that float towards zero.  The entry \<open>path_len\<close> is
  \<open>len(path) - 1\<close>, or the empty string when \<open>path\<close> is \<open>None\<close> or empty.
\<close>

text \<open>
  When \<open>a\<close> and \<open>b\<close> are small whole numbers the float difference and product are
  exact, and the float expression has the value \<open>whole_ms a b\<close>.
\<close>

definition py_int :: "real \<Rightarrow> int" where
  "py_int x = (if 0 \<le> x then \<lfloor>x\<rfloor> else \<lceil>x\<rceil>)"

definition whole_ms :: "real \<Rightarrow> real \<Rightarrow> real" where
  "whole_ms a b = (a - b) * 1000"

datatype path_len_entry = PathLen int | EmptyString

record Metrics =
  m_explored :: int
  m_runtime_ms :: int
  m_path_len :: path_len_entry
  m_optimal :: bool
  m_valid :: bool

definition get_metrics ::
  "(real \<Rightarrow> real \<Rightarrow> real) \<Rightarrow> real \<Rightarrow> 'a IncrementalSearch_scheme \<Rightarrow> Metrics" where
  "get_metrics ms now s =
     \<lparr> m_explored = explored s,
       m_runtime_ms = (if t1 s > 0 then py_int (ms (t1 s) (t0 s))
                       else py_int (ms now (t0 s))),
       m_path_len = (case path s of None \<Rightarrow> EmptyString | Some [] \<Rightarrow> EmptyString
                     | Some (x # xs) \<Rightarrow> PathLen (int (length (x # xs)) - 1)),
       m_optimal = (optimal s \<and> correct_path s),
       m_valid = correct_path s \<rparr>"

definition reset_metrics :: "real \<Rightarrow> 'a IncrementalSearch_scheme \<Rightarrow> 'a IncrementalSearch_scheme" where
  "reset_metrics now s =
     s\<lparr> explored := 0, t0 := now, t1 := 0, path := None, frames_drawn := 0,
        fps_ema := EMA_init, correct_path := False, optimal := False \<rparr>"

definition search_consume_dirty ::
  "'a IncrementalSearch_scheme \<Rightarrow> Coord set \<times> 'a IncrementalSearch_scheme" where
  "search_consume_dirty s = (s_dirty s, s\<lparr> s_dirty := {} \<rparr>)"

text \<open>
  \<open>_reconstruct\<close> (the same text in the four classes): follow \<open>parent\<close> from \<open>end\<close>
  until \<open>start\<close>, then reverse.  \<open>walk_back\<close> holds the list \<open>path\<close> of the source
  reversed (its head is \<open>path[-1]\<close>), so the final \<open>reverse()\<close> is already done.  A
  chain that leaves the dict raises \<open>KeyError\<close> at the lookup.  A chain that never
  meets \<open>start\<close> and never leaves the dict revisits a key after at most as many
  lookups as the dict has bindings, and the \<open>while\<close> loop then runs for ever: the
  fuel is that bound, and one more successful lookup is the outcome \<open>Diverges\<close>.
\<close>

fun walk_back :: "nat \<Rightarrow> (Coord \<times> Coord) list \<Rightarrow> Coord \<Rightarrow> Coord list \<Rightarrow> py_error + Coord list" where
  "walk_back fuel parent st [] = Inl IndexError"
| "walk_back fuel parent st (cur # acc) =
     (if cur \<noteq> st
      then bindE (lookupE parent cur) (\<lambda>p.
             case fuel of 0 \<Rightarrow> Inl Diverges
             | Suc n \<Rightarrow> walk_back n parent st (p # cur # acc))
      else Inr (cur # acc))"

definition reconstruct :: "(Coord \<times> Coord) list \<Rightarrow> Coord \<Rightarrow> Coord \<Rightarrow> py_error + Coord list" where
  "reconstruct parent st e = walk_back (length parent) parent st [e]"

text \<open>The first branch of every \<open>step\<close>: already done, or nothing left to expand.\<close>

definition finish_idle :: "real \<Rightarrow> 'a IncrementalSearch_scheme \<Rightarrow> 'a IncrementalSearch_scheme" where
  "finish_idle now s = s\<lparr> s_done := True, t1 := (if t1 s = 0 then now else t1 s) \<rparr>"

subsection \<open>BFS\<close>

record BFS = IncrementalSearch +
  queue :: "Coord list"
  parent_B :: "(Coord \<times> Coord) list"
  seen_B :: "Coord set"

definition IncrementalSearch_init :: "Grid \<Rightarrow> Coord \<Rightarrow> Coord \<Rightarrow> IncrementalSearch" where
  "IncrementalSearch_init g st gl =
     \<lparr> s_grid = g, s_start = st, s_goal = gl, s_done = False, explored = 0, t0 = 0, t1 = 0,
       path = None, frames_drawn = 0, fps_ema = EMA_init, correct_path = False,
       optimal = False, s_dirty = {} \<rparr>"

definition BFS_init :: "Grid \<Rightarrow> Coord \<Rightarrow> Coord \<Rightarrow> BFS" where
  "BFS_init g st gl =
     IncrementalSearch.extend (IncrementalSearch_init g st gl)
       (BFS.fields [st] [] {st})"

definition BFS_visit :: "Coord \<Rightarrow> Coord \<Rightarrow> BFS \<Rightarrow> BFS" where
  "BFS_visit rc nr s =
     (if nr \<notin> seen_B s
      then s\<lparr> seen_B := insert nr (seen_B s), parent_B := (nr, rc) # parent_B s,
              queue := queue s @ [nr] \<rparr>
      else s)"

definition BFS_step :: "real \<Rightarrow> BFS \<Rightarrow> py_error + BFS" where
  "BFS_step now s =
     (if s_done s \<or> queue s = [] then Inr (finish_idle now s)
      else case queue s of
        [] \<Rightarrow> Inl IndexError
      | rc # rest \<Rightarrow>
          let s1 = s\<lparr> queue := rest, explored := explored s + 1,
                      s_dirty := insert rc (s_dirty s) \<rparr>
          in if rc = s_goal s1
             then bindE (reconstruct (parent_B s1) (s_start s1) rc)
                    (\<lambda>p. Inr (s1\<lparr> s_done := True, path := Some p, t1 := now \<rparr>))
             else bindE (search_neighbors (s_grid s1) rc)
                    (\<lambda>ns. Inr (fold (BFS_visit rc) ns s1)))"

subsection \<open>DFS\<close>

text \<open>The stack is the Python list: \<open>pop()\<close> takes its last element.\<close>

record DFS = IncrementalSearch +
  stack :: "Coord list"
  parent_D :: "(Coord \<times> Coord) list"
  seen_D :: "Coord set"

definition DFS_init :: "Grid \<Rightarrow> Coord \<Rightarrow> Coord \<Rightarrow> DFS" where
  "DFS_init g st gl =
     IncrementalSearch.extend (IncrementalSearch_init g st gl)
       (DFS.fields [st] [] {st})"

definition DFS_visit :: "Coord \<Rightarrow> Coord \<Rightarrow> DFS \<Rightarrow> DFS" where
  "DFS_visit rc nr s =
     (if nr \<notin> seen_D s
      then s\<lparr> seen_D := insert nr (seen_D s), parent_D := (nr, rc) # parent_D s,
              stack := stack s @ [nr] \<rparr>
      else s)"

definition DFS_step :: "real \<Rightarrow> DFS \<Rightarrow> py_error + DFS" where
  "DFS_step now s =
     (if s_done s \<or> stack s = [] then Inr (finish_idle now s)
      else let rc = last (stack s);
               s1 = s\<lparr> stack := butlast (stack s), explored := explored s + 1,
                       s_dirty := insert rc (s_dirty s) \<rparr>
           in if rc = s_goal s1
              then bindE (reconstruct (parent_D s1) (s_start s1) rc)
                     (\<lambda>p. Inr (s1\<lparr> s_done := True, path := Some p, t1 := now \<rparr>))
              else bindE (search_neighbors (s_grid s1) rc)
                     (\<lambda>ns. Inr (fold (DFS_visit rc) (rev ns) s1)))"

subsection \<open>Dijkstra\<close>

text \<open>
  \<open>heapq\<close> is the standard library's binary heap.  The heap is modelled by the
  sorted list of its entries: \<open>heappush\<close> inserts in order, \<open>heappop\<close> removes the
  least entry, tuples comparing lexicographically.  \<open>dist.get(k, float("inf"))\<close> is
  \<open>map_of dist k\<close>, with \<open>None\<close> for infinity.
\<close>

type_synonym heap_entry = "int \<times> int \<times> Coord"

definition heappush :: "heap_entry list \<Rightarrow> heap_entry \<Rightarrow> heap_entry list" where
  "heappush h e = insort e h"

record Dijkstra = IncrementalSearch +
  dist :: "(Coord \<times> int) list"
  parent_J :: "(Coord \<times> Coord) list"
  pq_J :: "heap_entry list"
  tie_J :: int

definition Dijkstra_init :: "Grid \<Rightarrow> Coord \<Rightarrow> Coord \<Rightarrow> Dijkstra" where
  "Dijkstra_init g st gl =
     IncrementalSearch.extend (IncrementalSearch_init g st gl)
       (Dijkstra.fields [(st, 0)] [] (heappush [] (0, 0, st)) 0)"

definition Dijkstra_visit :: "int \<Rightarrow> Coord \<Rightarrow> Coord \<Rightarrow> Dijkstra \<Rightarrow> Dijkstra" where
  "Dijkstra_visit d rc nr s =
     (let nd = d + 1
      in if (case map_of (dist s) nr of None \<Rightarrow> True | Some old \<Rightarrow> nd < old)
         then s\<lparr> dist := (nr, nd) # dist s, parent_J := (nr, rc) # parent_J s,
                 tie_J := tie_J s + 1, pq_J := heappush (pq_J s) (nd, tie_J s + 1, nr) \<rparr>
         else s)"

definition Dijkstra_step :: "real \<Rightarrow> Dijkstra \<Rightarrow> py_error + Dijkstra" where
  "Dijkstra_step now s =
     (if s_done s \<or> pq_J s = [] then Inr (finish_idle now s)
      else case pq_J s of
        [] \<Rightarrow> Inl IndexError
      | (d, tie, rc) # rest \<Rightarrow>
          let s0 = s\<lparr> pq_J := rest \<rparr>
          in if Some d \<noteq> map_of (dist s0) rc then Inr s0
             else let s1 = s0\<lparr> explored := explored s0 + 1,
                               s_dirty := insert rc (s_dirty s0) \<rparr>
                  in if rc = s_goal s1
                     then bindE (reconstruct (parent_J s1) (s_start s1) rc)
                            (\<lambda>p. Inr (s1\<lparr> s_done := True, path := Some p, t1 := now \<rparr>))
                     else bindE (search_neighbors (s_grid s1) rc)
                            (\<lambda>ns. Inr (fold (Dijkstra_visit d rc) ns s1)))"

subsection \<open>A*\<close>

record AStar = IncrementalSearch +
  g_A :: "(Coord \<times> int) list"
  parent_A :: "(Coord \<times> Coord) list"
  pq_A :: "heap_entry list"
  tie_A :: int

text \<open>\<open>_f\<close>: \<open>g.get(rc, float("inf")) + manhattan(rc, goal)\<close>, \<open>None\<close> for infinity.\<close>

definition f_score :: "AStar \<Rightarrow> Coord \<Rightarrow> int option" where
  "f_score s rc = (case map_of (g_A s) rc of None \<Rightarrow> None
                   | Some gv \<Rightarrow> Some (gv + manhattan rc (s_goal s)))"

definition AStar_init :: "Grid \<Rightarrow> Coord \<Rightarrow> Coord \<Rightarrow> AStar" where
  "AStar_init g st gl =
     IncrementalSearch.extend (IncrementalSearch_init g st gl)
       (AStar.fields [(st, 0)] [] (heappush [] (manhattan st gl, 0, st)) 0)"

text \<open>
  One pass of the loop body.  \<open>self.g[rc]\<close> may raise.  The priority pushed is
  \<open>_f(nr)\<close> read after \<open>g[nr] = ng\<close> was written, that is \<open>ng + manhattan(nr, goal)\<close>.
\<close>

definition AStar_visit :: "Coord \<Rightarrow> Coord \<Rightarrow> AStar \<Rightarrow> py_error + AStar" where
  "AStar_visit rc nr s =
     bindE (lookupE (g_A s) rc) (\<lambda>grc.
       let ng = grc + 1
       in if (case map_of (g_A s) nr of None \<Rightarrow> True | Some old \<Rightarrow> ng < old)
          then Inr (s\<lparr> g_A := (nr, ng) # g_A s, parent_A := (nr, rc) # parent_A s,
                       tie_A := tie_A s + 1,
                       pq_A := heappush (pq_A s) (ng + manhattan nr (s_goal s), tie_A s + 1, nr) \<rparr>)
          else Inr s)"

definition AStar_step :: "real \<Rightarrow> AStar \<Rightarrow> py_error + AStar" where
  "AStar_step now s =
     (if s_done s \<or> pq_A s = [] then Inr (finish_idle now s)
      else case pq_A s of
        [] \<Rightarrow> Inl IndexError
      | (f, tie, rc) # rest \<Rightarrow>
          let s0 = s\<lparr> pq_A := rest \<rparr>
          in if Some f \<noteq> f_score s0 rc then Inr s0
             else let s1 = s0\<lparr> explored := explored s0 + 1,
                               s_dirty := insert rc (s_dirty s0) \<rparr>
                  in if rc = s_goal s1
                     then bindE (reconstruct (parent_A s1) (s_start s1) rc)
                            (\<lambda>p. Inr (s1\<lparr> s_done := True, path := Some p, t1 := now \<rparr>))
                     else bindE (search_neighbors (s_grid s1) rc)
                            (\<lambda>ns. foldE (AStar_visit rc) ns s1))"

subsection \<open>The race over one shared grid (main.py, \<open>_start_race\<close> and \<open>_run_loop\<close>)\<close>

text \<open>
  The four runners (all four algorithms are enabled by default) are built over the
  same \<open>Grid\<close> object, and then \<open>begin()\<close> is called on each in turn, each call
  reading the clock: \<open>start_race\<close> takes the four readings.  \<open>race_step\<close> steps one
  runner the way the shared reference makes it happen: the runner reads the shared
  grid, and whatever it did to its grid is written back to the shared object.
\<close>

datatype algo = RunBFS | RunDFS | RunDijkstra | RunAStar

record Race =
  race_grid :: Grid
  run_BFS :: BFS
  run_DFS :: DFS
  run_Dijkstra :: Dijkstra
  run_AStar :: AStar

definition start_race :: "Grid \<Rightarrow> real \<Rightarrow> real \<Rightarrow> real \<Rightarrow> real \<Rightarrow> Race" where
  "start_race g now_B now_D now_J now_A =
     \<lparr> race_grid = g,
       run_BFS = begin_search now_B (BFS_init g (start g) (goal g)),
       run_DFS = begin_search now_D (DFS_init g (start g) (goal g)),
       run_Dijkstra = begin_search now_J (Dijkstra_init g (start g) (goal g)),
       run_AStar = begin_search now_A (AStar_init g (start g) (goal g)) \<rparr>"

fun race_step :: "real \<Rightarrow> algo \<Rightarrow> Race \<Rightarrow> py_error + Race" where
  "race_step now RunBFS w =
     bindE (BFS_step now ((run_BFS w)\<lparr> s_grid := race_grid w \<rparr>))
       (\<lambda>r. Inr (w\<lparr> race_grid := s_grid r, run_BFS := r \<rparr>))"
| "race_step now RunDFS w =
     bindE (DFS_step now ((run_DFS w)\<lparr> s_grid := race_grid w \<rparr>))
       (\<lambda>r. Inr (w\<lparr> race_grid := s_grid r, run_DFS := r \<rparr>))"
| "race_step now RunDijkstra w =
     bindE (Dijkstra_step now ((run_Dijkstra w)\<lparr> s_grid := race_grid w \<rparr>))
       (\<lambda>r. Inr (w\<lparr> race_grid := s_grid r, run_Dijkstra := r \<rparr>))"
| "race_step now RunAStar w =
     bindE (AStar_step now ((run_AStar w)\<lparr> s_grid := race_grid w \<rparr>))
       (\<lambda>r. Inr (w\<lparr> race_grid := s_grid r, run_AStar := r \<rparr>))"

text \<open>
  A driver's repeated \<open>step()\<close> calls on one search, one clock reading per call; the
  first call that raises ends the run.
\<close>

fun steps_with :: "(real \<Rightarrow> 's \<Rightarrow> py_error + 's) \<Rightarrow> real list \<Rightarrow> 's \<Rightarrow> py_error + 's" where
  "steps_with step [] s = Inr s"
| "steps_with step (now # nows) s = bindE (step now s) (steps_with step nows)"

abbreviation BFS_steps :: "real list \<Rightarrow> BFS \<Rightarrow> py_error + BFS" where
  "BFS_steps \<equiv> steps_with BFS_step"

abbreviation DFS_steps :: "real list \<Rightarrow> DFS \<Rightarrow> py_error + DFS" where
  "DFS_steps \<equiv> steps_with DFS_step"

abbreviation Dijkstra_steps :: "real list \<Rightarrow> Dijkstra \<Rightarrow> py_error + Dijkstra" where
  "Dijkstra_steps \<equiv> steps_with Dijkstra_step"

abbreviation AStar_steps :: "real list \<Rightarrow> AStar \<Rightarrow> py_error + AStar" where
  "AStar_steps \<equiv> steps_with AStar_step"

section \<open>iterative/DynamixMazeGen(Claude)/search.py: SearchAlgorithm and BFS\<close>

datatype SearchStatus = RUNNING | FOUND | NO_PATH

text \<open>
  \<open>class SearchAlgorithm\<close>.  \<open>end_time\<close> is \<open>None\<close> until the search ends; \<open>parent\<close>
  maps the start to \<open>None\<close>.
\<close>

record CSearch =
  c_maze :: CMaze
  c_start :: Coord
  c_goal :: Coord
  status :: SearchStatus
  c_path :: "Coord list"
  explored_count :: int
  start_time :: real
  end_time :: "real option"
  frontier_C :: "Coord set"
  visited_C :: "Coord set"
  parent_C :: "(Coord \<times> Coord option) list"

record CBFS = CSearch +
  queue_C :: "Coord list"

definition cell_to_grid :: "int \<Rightarrow> int \<Rightarrow> Coord" where
  "cell_to_grid cell_r cell_c = (2 * cell_r + 1, 2 * cell_c + 1)"

text \<open>\<open>_get_neighbors\<close>: up, right, down, left, kept when the wall between is open.\<close>

definition C_get_neighbors :: "'a CSearch_scheme \<Rightarrow> Coord \<Rightarrow> py_error + Coord list" where
  "C_get_neighbors s cl = (case cl of (r, c) \<Rightarrow>
     filterE (\<lambda>p. case p of (nr, nc) \<Rightarrow>
                if 0 \<le> nr \<and> nr < cell_rows (c_maze s) \<and> 0 \<le> nc \<and> nc < cell_cols (c_maze s)
                then (let cell_grid = cell_to_grid r c; neighbor_grid = cell_to_grid nr nc;
                          wall_r = (fst cell_grid + fst neighbor_grid) div 2;
                          wall_c = (snd cell_grid + snd neighbor_grid) div 2
                      in is_passage_C (c_maze s) wall_r wall_c)
                else Inr False)
       [(r + (-1), c + 0), (r + 0, c + 1), (r + 1, c + 0), (r + 0, c + (-1))])"

text \<open>
  \<open>_reconstruct_path\<close>: the loop ends at the binding to \<open>None\<close>, and a position
  missing from the dict raises \<open>KeyError\<close> at the lookup.  The accumulator is the
  source's \<open>path\<close> reversed; the fuel bounds the successful lookups as in
  \<open>walk_back\<close>.
\<close>

fun C_walk :: "nat \<Rightarrow> (Coord \<times> Coord option) list \<Rightarrow> Coord option \<Rightarrow> Coord list
    \<Rightarrow> py_error + Coord list" where
  "C_walk fuel parent None acc = Inr acc"
| "C_walk fuel parent (Some cur) acc =
     bindE (lookupE parent cur) (\<lambda>nxt.
       case fuel of 0 \<Rightarrow> Inl Diverges
       | Suc n \<Rightarrow> C_walk n parent nxt (cur # acc))"

definition C_reconstruct_path :: "'a CSearch_scheme \<Rightarrow> py_error + Coord list" where
  "C_reconstruct_path s =
     (if map_of (parent_C s) (c_goal s) = None then Inr []
      else C_walk (length (parent_C s)) (parent_C s) (Some (c_goal s)) [])"

definition C_is_done :: "'a CSearch_scheme \<Rightarrow> bool" where
  "C_is_done s \<longleftrightarrow> status s \<noteq> RUNNING"

definition C_get_path :: "'a CSearch_scheme \<Rightarrow> Coord list" where
  "C_get_path s = c_path s"

record CMetrics =
  cm_explored :: int
  cm_runtime_ms :: real
  cm_path_len :: int

text \<open>
  \<open>get_metrics\<close>: \<open>runtime_ms\<close> is the float \<open>(a - b) * 1000\<close>, the parameter \<open>ms\<close> as in
  the ChatGPT5 OneShot \<open>get_metrics\<close>.
\<close>

definition C_get_metrics ::
  "(real \<Rightarrow> real \<Rightarrow> real) \<Rightarrow> real \<Rightarrow> 'a CSearch_scheme \<Rightarrow> CMetrics" where
  "C_get_metrics ms now s =
     \<lparr> cm_explored = explored_count s,
       cm_runtime_ms = (case end_time s of None \<Rightarrow> ms now (start_time s)
                        | Some e \<Rightarrow> ms e (start_time s)),
       cm_path_len = int (length (c_path s)) \<rparr>"

definition CBFS_init :: "real \<Rightarrow> CMaze \<Rightarrow> Coord \<Rightarrow> Coord \<Rightarrow> CBFS" where
  "CBFS_init now m st gl =
     \<lparr> c_maze = m, c_start = st, c_goal = gl, status = RUNNING, c_path = [],
       explored_count = 0, start_time = now, end_time = None,
       frontier_C = {st}, visited_C = {}, parent_C = [(st, None)], queue_C = [st] \<rparr>"

definition CBFS_visit :: "Coord \<Rightarrow> Coord \<Rightarrow> CBFS \<Rightarrow> CBFS" where
  "CBFS_visit current neighbor s =
     (if neighbor \<notin> visited_C s \<and> neighbor \<notin> frontier_C s
      then s\<lparr> queue_C := queue_C s @ [neighbor], frontier_C := insert neighbor (frontier_C s),
              parent_C := (neighbor, Some current) # parent_C s \<rparr>
      else s)"

definition CBFS_step :: "real \<Rightarrow> CBFS \<Rightarrow> py_error + CBFS" where
  "CBFS_step now s =
     (if status s \<noteq> RUNNING then Inr s
      else case queue_C s of
        [] \<Rightarrow> Inr (s\<lparr> status := NO_PATH, end_time := Some now \<rparr>)
      | current # rest \<Rightarrow>
          let s0 = s\<lparr> queue_C := rest, frontier_C := frontier_C s - {current} \<rparr>
          in if current \<in> visited_C s0 then Inr s0
             else let s1 = s0\<lparr> visited_C := insert current (visited_C s0),
                               explored_count := explored_count s0 + 1 \<rparr>
                  in if current = c_goal s1
                     then bindE (C_reconstruct_path (s1\<lparr> status := FOUND \<rparr>))
                            (\<lambda>p. Inr (s1\<lparr> status := FOUND, c_path := p, end_time := Some now \<rparr>))
                     else bindE (C_get_neighbors s1 current)
                            (\<lambda>ns. Inr (fold (CBFS_visit current) ns s1)))"

abbreviation CBFS_steps :: "real list \<Rightarrow> CBFS \<Rightarrow> py_error + CBFS" where
  "CBFS_steps \<equiv> steps_with CBFS_step"

text \<open>
  The states a driver can bring a search to: built by the constructor, then
  \<open>begin()\<close> and \<open>step()\<close> calls, each reading a clock whose readings are positive
  (\<open>perf_counter\<close> counts seconds from a point in the past), \<open>reset_metrics()\<close>
  called while the search is still running, \<open>consume_dirty()\<close>, and the driver's own
  writes to \<open>frames_drawn\<close>, \<open>fps_ema\<close>, \<open>correct_path\<close> and \<open>optimal\<close> (main.py, \<open>_tick\<close>
  and the validation after a race), whatever values it writes.
\<close>

inductive reach_BFS :: "BFS \<Rightarrow> bool" where
  "reach_BFS (BFS_init g st gl)"
| "reach_BFS s \<Longrightarrow> 0 < now \<Longrightarrow> reach_BFS (begin_search now s)"
| "reach_BFS s \<Longrightarrow> 0 < now \<Longrightarrow> BFS_step now s = Inr s' \<Longrightarrow> reach_BFS s'"
| "reach_BFS s \<Longrightarrow> \<not> s_done s \<Longrightarrow> reach_BFS (reset_metrics now s)"
| "reach_BFS s \<Longrightarrow> reach_BFS (snd (search_consume_dirty s))"
| "reach_BFS s \<Longrightarrow>
   reach_BFS (s\<lparr> frames_drawn := n, fps_ema := e, correct_path := v, optimal := opt \<rparr>)"

inductive reach_DFS :: "DFS \<Rightarrow> bool" where
  "reach_DFS (DFS_init g st gl)"
| "reach_DFS s \<Longrightarrow> 0 < now \<Longrightarrow> reach_DFS (begin_search now s)"
| "reach_DFS s \<Longrightarrow> 0 < now \<Longrightarrow> DFS_step now s = Inr s' \<Longrightarrow> reach_DFS s'"
| "reach_DFS s \<Longrightarrow> \<not> s_done s \<Longrightarrow> reach_DFS (reset_metrics now s)"
| "reach_DFS s \<Longrightarrow> reach_DFS (snd (search_consume_dirty s))"
| "reach_DFS s \<Longrightarrow>
   reach_DFS (s\<lparr> frames_drawn := n, fps_ema := e, correct_path := v, optimal := opt \<rparr>)"

inductive reach_Dijkstra :: "Dijkstra \<Rightarrow> bool" where
  "reach_Dijkstra (Dijkstra_init g st gl)"
| "reach_Dijkstra s \<Longrightarrow> 0 < now \<Longrightarrow> reach_Dijkstra (begin_search now s)"
| "reach_Dijkstra s \<Longrightarrow> 0 < now \<Longrightarrow> Dijkstra_step now s = Inr s' \<Longrightarrow> reach_Dijkstra s'"
| "reach_Dijkstra s \<Longrightarrow> \<not> s_done s \<Longrightarrow> reach_Dijkstra (reset_metrics now s)"
| "reach_Dijkstra s \<Longrightarrow> reach_Dijkstra (snd (search_consume_dirty s))"
| "reach_Dijkstra s \<Longrightarrow>
   reach_Dijkstra (s\<lparr> frames_drawn := n, fps_ema := e, correct_path := v, optimal := opt \<rparr>)"

inductive reach_AStar :: "AStar \<Rightarrow> bool" where
  "reach_AStar (AStar_init g st gl)"
| "reach_AStar s \<Longrightarrow> 0 < now \<Longrightarrow> reach_AStar (begin_search now s)"
| "reach_AStar s \<Longrightarrow> 0 < now \<Longrightarrow> AStar_step now s = Inr s' \<Longrightarrow> reach_AStar s'"
| "reach_AStar s \<Longrightarrow> \<not> s_done s \<Longrightarrow> reach_AStar (reset_metrics now s)"
| "reach_AStar s \<Longrightarrow> reach_AStar (snd (search_consume_dirty s))"
| "reach_AStar s \<Longrightarrow>
   reach_AStar (s\<lparr> frames_drawn := n, fps_ema := e, correct_path := v, optimal := opt \<rparr>)"

inductive reach_CBFS :: "CBFS \<Rightarrow> bool" where
  "reach_CBFS (CBFS_init now m st gl)"
| "reach_CBFS s \<Longrightarrow> CBFS_step now s = Inr s' \<Longrightarrow> reach_CBFS s'"

section \<open>Notions used to state properties of the searches\<close>

text \<open>
  The passage graph of a grid as the searches see it: \<open>nbr g p q\<close> holds when \<open>q\<close> is
  one of the four candidates around \<open>p\<close>, in bounds and not a wall, that is when
  \<open>_neighbors(p)\<close> lists \<open>q\<close>.  \<open>reachable\<close> is its reflexive transitive closure, and a
  \<open>good_path\<close> from \<open>st\<close> to \<open>gl\<close> lists distinct positions, each a neighbour of the one
  before it.
\<close>

definition nbr :: "Grid \<Rightarrow> Coord \<Rightarrow> Coord \<Rightarrow> bool" where
  "nbr g p q \<longleftrightarrow> in_bounds g (fst q) (snd q) \<and> cell g q \<noteq> wall g
     \<and> (q = (fst p - 1, snd p) \<or> q = (fst p, snd p + 1) \<or> q = (fst p + 1, snd p)
          \<or> q = (fst p, snd p - 1))"

definition reachable :: "Grid \<Rightarrow> Coord \<Rightarrow> Coord \<Rightarrow> bool" where
  "reachable g a b \<longleftrightarrow> (nbr g)\<^sup>*\<^sup>* a b"

definition universe :: "Grid \<Rightarrow> Coord \<Rightarrow> Coord set" where
  "universe g st = insert st {p. in_bounds g (fst p) (snd p)}"

text \<open>
  What the four searches have in common, for the proofs: the set \<open>aD\<close> of positions
  discovered so far, the multiset \<open>aQ\<close> of pending entries (a rank and a position),
  a rank \<open>aR\<close> for every discovered position, the parent map \<open>aPar\<close>, and the outcome.
  For BFS and DFS the rank of a position is the number of positions discovered
  before it; for Dijkstra and A* it is the recorded distance.  Ranks strictly
  decrease along parent links, which is why \<open>_reconstruct\<close> ends.
\<close>

record Abs =
  aD :: "Coord set"
  aQ :: "(nat \<times> Coord) multiset"
  aR :: "Coord \<Rightarrow> nat"
  aPar :: "Coord \<rightharpoonup> Coord"
  aDone :: bool
  aPath :: "Coord list option"

definition good_path :: "Grid \<Rightarrow> Coord \<Rightarrow> Coord \<Rightarrow> Coord list \<Rightarrow> bool" where
  "good_path g st gl p \<longleftrightarrow> p \<noteq> [] \<and> hd p = st \<and> last p = gl \<and> distinct p
     \<and> successively (nbr g) p"

text \<open>
  The invariant.  \<open>AI_core\<close>: discovered positions are reachable, every discovered
  position but the start has a parent that is a neighbour of smaller rank, pending
  entries name discovered positions, and a finished search either has a good path
  or faces an unreachable goal.  \<open>settled\<close>: a discovered position is still pending
  under its current rank, or is not the goal and has all its neighbours discovered.
  \<open>AIx\<close> is the invariant in the middle of the expansion of \<open>u\<close>.
\<close>

definition settled :: "Grid \<Rightarrow> Coord \<Rightarrow> Abs \<Rightarrow> Coord \<Rightarrow> bool" where
  "settled g gl a v \<longleftrightarrow> (aR a v, v) \<in># aQ a \<or> (v \<noteq> gl \<and> (\<forall>q. nbr g v q \<longrightarrow> q \<in> aD a))"

definition AI_core :: "Grid \<Rightarrow> Coord \<Rightarrow> Coord \<Rightarrow> Abs \<Rightarrow> bool" where
  "AI_core g st gl a \<longleftrightarrow>
     st \<in> aD a \<and> aD a \<subseteq> universe g st \<and> aR a st = 0
     \<and> (\<forall>v\<in>aD a. reachable g st v \<and> aR a v < card (aD a))
     \<and> (\<forall>v p. aPar a v = Some p \<longrightarrow>
           v \<in> aD a \<and> v \<noteq> st \<and> p \<in> aD a \<and> nbr g p v \<and> aR a p < aR a v)
     \<and> (\<forall>v\<in>aD a. v \<noteq> st \<longrightarrow> aPar a v \<noteq> None)
     \<and> (\<forall>e\<in>#aQ a. snd e \<in> aD a)
     \<and> (\<forall>p. aPath a = Some p \<longrightarrow> aDone a \<and> good_path g st gl p)
     \<and> (aDone a \<and> aPath a = None \<longrightarrow> \<not> reachable g st gl)"

definition AI :: "Grid \<Rightarrow> Coord \<Rightarrow> Coord \<Rightarrow> Abs \<Rightarrow> bool" where
  "AI g st gl a \<longleftrightarrow> AI_core g st gl a \<and> (\<not> aDone a \<longrightarrow> (\<forall>v\<in>aD a. settled g gl a v))"

definition AIx :: "Grid \<Rightarrow> Coord \<Rightarrow> Coord \<Rightarrow> Coord \<Rightarrow> Abs \<Rightarrow> bool" where
  "AIx g st gl u a \<longleftrightarrow> AI_core g st gl a \<and> \<not> aDone a \<and> u \<in> aD a \<and> u \<noteq> gl
     \<and> (\<forall>v\<in>aD a. v \<noteq> u \<longrightarrow> settled g gl a v)"

text \<open>
  The measure that bounds the number of steps: ranks only go down, undiscovered
  positions count as the size of the universe, and every pending entry counts one.
\<close>

definition potential :: "Grid \<Rightarrow> Coord \<Rightarrow> Abs \<Rightarrow> nat" where
  "potential g st a = (\<Sum>x\<in>universe g st. if x \<in> aD a then aR a x else card (universe g st))"

definition load :: "Grid \<Rightarrow> Coord \<Rightarrow> Abs \<Rightarrow> nat" where
  "load g st a = 2 * potential g st a + size (aQ a)"

definition relax :: "Coord \<Rightarrow> nat \<Rightarrow> Coord \<Rightarrow> Abs \<Rightarrow> Abs" where
  "relax u r v a = a\<lparr> aD := insert v (aD a), aR := (aR a)(v := r), aPar := (aPar a)(v \<mapsto> u),
                      aQ := add_mset (r, v) (aQ a) \<rparr>"

text \<open>How each search state is read as such a view.\<close>

definition abs_init :: "Coord \<Rightarrow> Abs" where
  "abs_init st = \<lparr> aD = {st}, aQ = {#(0, st)#}, aR = (\<lambda>_. 0), aPar = Map.empty,
                    aDone = False, aPath = None \<rparr>"

definition rel_BFS :: "Grid \<Rightarrow> Coord \<Rightarrow> Coord \<Rightarrow> BFS \<Rightarrow> Abs \<Rightarrow> bool" where
  "rel_BFS g st gl s a \<longleftrightarrow> s_grid s = g \<and> s_start s = st \<and> s_goal s = gl \<and> seen_B s = aD a
     \<and> mset (map (\<lambda>v. (aR a v, v)) (queue s)) = aQ a \<and> map_of (parent_B s) = aPar a
     \<and> s_done s = aDone a \<and> path s = aPath a"

definition rel_DFS :: "Grid \<Rightarrow> Coord \<Rightarrow> Coord \<Rightarrow> DFS \<Rightarrow> Abs \<Rightarrow> bool" where
  "rel_DFS g st gl s a \<longleftrightarrow> s_grid s = g \<and> s_start s = st \<and> s_goal s = gl \<and> seen_D s = aD a
     \<and> mset (map (\<lambda>v. (aR a v, v)) (stack s)) = aQ a \<and> map_of (parent_D s) = aPar a
     \<and> s_done s = aDone a \<and> path s = aPath a"

definition rank_map :: "Abs \<Rightarrow> Coord \<rightharpoonup> int" where
  "rank_map a = (\<lambda>v. if v \<in> aD a then Some (int (aR a v)) else None)"

definition rel_Dijkstra :: "Grid \<Rightarrow> Coord \<Rightarrow> Coord \<Rightarrow> Dijkstra \<Rightarrow> Abs \<Rightarrow> bool" where
  "rel_Dijkstra g st gl s a \<longleftrightarrow> s_grid s = g \<and> s_start s = st \<and> s_goal s = gl
     \<and> map_of (dist s) = rank_map a
     \<and> mset (map (\<lambda>e. (nat (fst e), snd (snd e))) (pq_J s)) = aQ a
     \<and> (\<forall>e\<in>set (pq_J s). 0 \<le> fst e)
     \<and> map_of (parent_J s) = aPar a \<and> s_done s = aDone a \<and> path s = aPath a"

definition rel_AStar :: "Grid \<Rightarrow> Coord \<Rightarrow> Coord \<Rightarrow> AStar \<Rightarrow> Abs \<Rightarrow> bool" where
  "rel_AStar g st gl s a \<longleftrightarrow> s_grid s = g \<and> s_start s = st \<and> s_goal s = gl
     \<and> map_of (g_A s) = rank_map a
     \<and> mset (map (\<lambda>e. (nat (fst e - manhattan (snd (snd e)) gl), snd (snd e))) (pq_A s)) = aQ a
     \<and> (\<forall>e\<in>set (pq_A s). manhattan (snd (snd e)) gl \<le> fst e)
     \<and> map_of (parent_A s) = aPar a \<and> s_done s = aDone a \<and> path s = aPath a"

text \<open>A number of \<open>step()\<close> calls after which every search over the grid is done.\<close>

definition search_bound :: "Grid \<Rightarrow> nat" where
  "search_bound g = 2 * (nat (rows g) * nat (cols g) + 1) ^ 2 + 2"

section \<open>Indexing lemmas\<close>

lemma bindE_Inr [simp]: "bindE (Inr x) f = f x"
  by (simp add: bindE_def)

lemma bindE_Inl [simp]: "bindE (Inl e) f = Inl e"
  by (simp add: bindE_def)

lemma bindE_eq_Inr: "bindE m f = Inr y \<longleftrightarrow> (\<exists>x. m = Inr x \<and> f x = Inr y)"
  by (cases m) simp_all

lemma py_get_inside: "0 \<le> i \<Longrightarrow> i < int (length xs) \<Longrightarrow> py_get xs i = Inr (xs ! nat i)"
  by (simp add: py_get_def)

lemma py_get_above: "int (length xs) \<le> i \<Longrightarrow> py_get xs i = Inl IndexError"
  by (simp add: py_get_def)

lemma py_set_inside: "0 \<le> i \<Longrightarrow> i < int (length xs) \<Longrightarrow> py_set xs i v = Inr (xs[nat i := v])"
  by (simp add: py_set_def)

lemma py_get2_inside:
  assumes "length m = nat R" "list_all (\<lambda>row. length row = nat C) m"
    and "0 \<le> r" "r < R" "0 \<le> c" "c < C"
  shows "py_get2 m r c = Inr (m ! nat r ! nat c)"
proof -
  have r: "nat r < length m" using assms by simp
  then have "length (m ! nat r) = nat C"
    using assms(2) by (simp add: list_all_length)
  then show ?thesis
    using assms r by (simp add: py_get2_def py_get_inside)
qed

lemma py_set2_inside:
  assumes "length m = nat R" "list_all (\<lambda>row. length row = nat C) m"
    and "0 \<le> r" "r < R" "0 \<le> c" "c < C"
  shows "py_set2 m r c v = Inr (m[nat r := (m ! nat r)[nat c := v]])"
proof -
  have r: "nat r < length m" using assms by simp
  then have "length (m ! nat r) = nat C"
    using assms(2) by (simp add: list_all_length)
  then show ?thesis
    using assms r by (simp add: py_set2_def py_get_inside py_set_inside)
qed

lemma is_wall_inside:
  "wf_grid g \<Longrightarrow> in_bounds g r c \<Longrightarrow> is_wall g (r, c) = Inr (cell g (r, c) = wall g)"
  by (simp add: is_wall_def wf_grid_def in_bounds_def cell_def
      py_get2_inside [where R = "rows g" and C = "cols g"])


lemma Grid_init_wf: "Grid_init R C = Inr g \<Longrightarrow> wf_grid g"
  by (auto simp: Grid_init_def wf_grid_def list_all_length split: if_splits)

lemma guarded_wall_test:
  "wf_grid g \<Longrightarrow>
   (if in_bounds g (fst p) (snd p) then bindE (is_wall g p) (\<lambda>w. Inr (\<not> w)) else Inr False)
     = Inr (in_bounds g (fst p) (snd p) \<and> cell g p \<noteq> wall g)"
  by (cases p) (simp add: is_wall_inside)

lemma filterE_total: "(\<And>x. t x = Inr (P x)) \<Longrightarrow> filterE t xs = Inr (filter P xs)"
  by (induction xs) simp_all

lemma search_neighbors_wf:
  "wf_grid g \<Longrightarrow> search_neighbors g (r, c) =
     Inr (filter (\<lambda>p. in_bounds g (fst p) (snd p) \<and> cell g p \<noteq> wall g)
            [(r - 1, c), (r, c + 1), (r + 1, c), (r, c - 1)])"
  unfolding search_neighbors_def prod.case
  by (rule filterE_total) (rule guarded_wall_test)

lemma get_neighbors_walls:
  "get_neighbors g r c step True =
     Inr (filter (\<lambda>p. is_valid g (fst p) (snd p))
            [(r - step, c), (r + step, c), (r, c - step), (r, c + step)])"
  unfolding get_neighbors_def
  by (subst filterE_total [where P = "\<lambda>p. is_valid g (fst p) (snd p)"]) simp_all

lemma get_neighbors_passages:
  assumes "wf_GGrid g"
  shows "get_neighbors g r c step False =
     Inr (filter (\<lambda>p. is_valid g (fst p) (snd p)
                      \<and> grid_G g ! nat (fst p) ! nat (snd p) = PASSAGE)
            [(r - step, c), (r + step, c), (r, c - step), (r, c + step)])"
proof -
  have t: "(if is_valid g (fst p) (snd p)
         then (if False then Inr True
               else bindE (py_get2 (grid_G g) (fst p) (snd p)) (\<lambda>v. Inr (v = PASSAGE)))
         else Inr False)
        = Inr (is_valid g (fst p) (snd p) \<and> grid_G g ! nat (fst p) ! nat (snd p) = PASSAGE)"
    for p
  proof (cases "is_valid g (fst p) (snd p)")
    case True
    then have "py_get2 (grid_G g) (fst p) (snd p) = Inr (grid_G g ! nat (fst p) ! nat (snd p))"
      using assms
      by (intro py_get2_inside [where R = "rows_G g" and C = "cols_G g"])
         (simp_all add: is_valid_def wf_GGrid_def)
    then show ?thesis using True by simp
  next
    case False
    then show ?thesis by simp
  qed
  show ?thesis
    unfolding get_neighbors_def
    by (subst filterE_total
        [where P = "\<lambda>p. is_valid g (fst p) (snd p)
                      \<and> grid_G g ! nat (fst p) ! nat (snd p) = PASSAGE", OF t]) simp
qed




lemma IMaze_init_wf: "IMaze_init R C = Inr m \<Longrightarrow> wf_IMaze m"
  by (auto simp add: wf_IMaze_def IMaze_init_def Let_def list_all_length split: if_splits)

section \<open>What a search step leaves alone\<close>

lemma finish_idle_frame [simp]:
  "s_grid (finish_idle now s) = s_grid s" "s_start (finish_idle now s) = s_start s"
  "s_goal (finish_idle now s) = s_goal s" "path (finish_idle now s) = path s"
  "explored (finish_idle now s) = explored s"
  by (simp_all add: finish_idle_def)

lemma finish_idle_done: "s_done s \<Longrightarrow> t1 s \<noteq> 0 \<Longrightarrow> finish_idle now s = s"
  by (simp add: finish_idle_def)

lemma finish_idle_clock [simp]:
  "s_done (finish_idle now s)" "t1 (finish_idle now s) = (if t1 s = 0 then now else t1 s)"
  by (simp_all add: finish_idle_def)

lemma get_metrics_fixed: "0 < t1 s \<Longrightarrow> get_metrics ms now s = get_metrics ms now' s"
  by (simp add: get_metrics_def)

lemma BFS_visit_frame [simp]:
  "s_grid (BFS_visit rc nr s) = s_grid s" "s_start (BFS_visit rc nr s) = s_start s"
  "s_goal (BFS_visit rc nr s) = s_goal s" "s_done (BFS_visit rc nr s) = s_done s"
  "t1 (BFS_visit rc nr s) = t1 s" "path (BFS_visit rc nr s) = path s"
  "explored (BFS_visit rc nr s) = explored s"
  by (simp_all add: BFS_visit_def Let_def)

lemma BFS_fold_frame [simp]:
  "s_grid (fold (BFS_visit rc) ns s) = s_grid s" "s_start (fold (BFS_visit rc) ns s) = s_start s"
  "s_goal (fold (BFS_visit rc) ns s) = s_goal s" "s_done (fold (BFS_visit rc) ns s) = s_done s"
  "t1 (fold (BFS_visit rc) ns s) = t1 s" "path (fold (BFS_visit rc) ns s) = path s"
  "explored (fold (BFS_visit rc) ns s) = explored s"
  by (induction ns arbitrary: s) simp_all

lemma BFS_step_frame:
  "BFS_step now s = Inr s' \<Longrightarrow> s_grid s' = s_grid s \<and> s_start s' = s_start s \<and> s_goal s' = s_goal s"
  by (auto simp: BFS_step_def Let_def bindE_eq_Inr split: if_splits list.splits)

lemma DFS_visit_frame [simp]:
  "s_grid (DFS_visit rc nr s) = s_grid s" "s_start (DFS_visit rc nr s) = s_start s"
  "s_goal (DFS_visit rc nr s) = s_goal s" "s_done (DFS_visit rc nr s) = s_done s"
  "t1 (DFS_visit rc nr s) = t1 s" "path (DFS_visit rc nr s) = path s"
  "explored (DFS_visit rc nr s) = explored s"
  by (simp_all add: DFS_visit_def Let_def)

lemma DFS_fold_frame [simp]:
  "s_grid (fold (DFS_visit rc) ns s) = s_grid s" "s_start (fold (DFS_visit rc) ns s) = s_start s"
  "s_goal (fold (DFS_visit rc) ns s) = s_goal s" "s_done (fold (DFS_visit rc) ns s) = s_done s"
  "t1 (fold (DFS_visit rc) ns s) = t1 s" "path (fold (DFS_visit rc) ns s) = path s"
  "explored (fold (DFS_visit rc) ns s) = explored s"
  by (induction ns arbitrary: s) simp_all

lemma DFS_step_frame:
  "DFS_step now s = Inr s' \<Longrightarrow> s_grid s' = s_grid s \<and> s_start s' = s_start s \<and> s_goal s' = s_goal s"
  by (auto simp: DFS_step_def Let_def bindE_eq_Inr split: if_splits list.splits)

lemma Dijkstra_visit_frame [simp]:
  "s_grid (Dijkstra_visit d rc nr s) = s_grid s" "s_start (Dijkstra_visit d rc nr s) = s_start s"
  "s_goal (Dijkstra_visit d rc nr s) = s_goal s" "s_done (Dijkstra_visit d rc nr s) = s_done s"
  "t1 (Dijkstra_visit d rc nr s) = t1 s" "path (Dijkstra_visit d rc nr s) = path s"
  "explored (Dijkstra_visit d rc nr s) = explored s"
  by (simp_all add: Dijkstra_visit_def Let_def)

lemma Dijkstra_fold_frame [simp]:
  "s_grid (fold (Dijkstra_visit d rc) ns s) = s_grid s" "s_start (fold (Dijkstra_visit d rc) ns s) = s_start s"
  "s_goal (fold (Dijkstra_visit d rc) ns s) = s_goal s" "s_done (fold (Dijkstra_visit d rc) ns s) = s_done s"
  "t1 (fold (Dijkstra_visit d rc) ns s) = t1 s" "path (fold (Dijkstra_visit d rc) ns s) = path s"
  "explored (fold (Dijkstra_visit d rc) ns s) = explored s"
  by (induction ns arbitrary: s) simp_all

lemma Dijkstra_step_frame:
  "Dijkstra_step now s = Inr s' \<Longrightarrow> s_grid s' = s_grid s \<and> s_start s' = s_start s \<and> s_goal s' = s_goal s"
  by (auto simp: Dijkstra_step_def Let_def bindE_eq_Inr split: if_splits list.splits)

lemma AStar_visit_frame:
  "AStar_visit rc nr s = Inr s' \<Longrightarrow>
     s_grid s' = s_grid s \<and> s_start s' = s_start s \<and> s_goal s' = s_goal s
     \<and> s_done s' = s_done s \<and> t1 s' = t1 s \<and> path s' = path s \<and> explored s' = explored s"
  by (auto simp: AStar_visit_def Let_def bindE_eq_Inr split: if_splits)

lemma AStar_fold_frame:
  "foldE (AStar_visit rc) ns s = Inr s' \<Longrightarrow>
     s_grid s' = s_grid s \<and> s_start s' = s_start s \<and> s_goal s' = s_goal s
     \<and> s_done s' = s_done s \<and> t1 s' = t1 s \<and> path s' = path s \<and> explored s' = explored s"
proof (induction ns arbitrary: s)
  case Nil
  then show ?case by simp
next
  case (Cons n ns)
  then obtain s1 where 1: "AStar_visit rc n s = Inr s1" and 2: "foldE (AStar_visit rc) ns s1 = Inr s'"
    by (auto simp: bindE_eq_Inr)
  show ?case using Cons.IH [OF 2] AStar_visit_frame [OF 1] by simp
qed

lemma AStar_step_frame:
  "AStar_step now s = Inr s' \<Longrightarrow>
     s_grid s' = s_grid s \<and> s_start s' = s_start s \<and> s_goal s' = s_goal s"
  by (auto simp: AStar_step_def Let_def bindE_eq_Inr split: if_splits list.splits
      dest!: AStar_fold_frame)

lemma CBFS_visit_frame [simp]:
  "c_maze (CBFS_visit cur nr s) = c_maze s" "c_start (CBFS_visit cur nr s) = c_start s"
  "c_goal (CBFS_visit cur nr s) = c_goal s" "status (CBFS_visit cur nr s) = status s"
  "end_time (CBFS_visit cur nr s) = end_time s"
  by (simp_all add: CBFS_visit_def)

lemma CBFS_fold_frame [simp]:
  "c_maze (fold (CBFS_visit rc) ns s) = c_maze s" "c_start (fold (CBFS_visit rc) ns s) = c_start s"
  "c_goal (fold (CBFS_visit rc) ns s) = c_goal s" "status (fold (CBFS_visit rc) ns s) = status s"
  "end_time (fold (CBFS_visit rc) ns s) = end_time s"
  by (induction ns arbitrary: s) simp_all

lemma CBFS_step_frame:
  "CBFS_step now s = Inr s' \<Longrightarrow> c_maze s' = c_maze s \<and> c_start s' = c_start s \<and> c_goal s' = c_goal s"
  by (auto simp: CBFS_step_def Let_def bindE_eq_Inr split: if_splits list.splits)

lemma race_step_frame:
  assumes "race_step now a w = Inr w'"
  shows "race_grid w' = race_grid w
    \<and> (a \<noteq> RunBFS \<longrightarrow> run_BFS w' = run_BFS w)
    \<and> (a \<noteq> RunDFS \<longrightarrow> run_DFS w' = run_DFS w)
    \<and> (a \<noteq> RunDijkstra \<longrightarrow> run_Dijkstra w' = run_Dijkstra w)
    \<and> (a \<noteq> RunAStar \<longrightarrow> run_AStar w' = run_AStar w)"
  using assms
  by (cases a)
    (auto simp: bindE_eq_Inr dest!: BFS_step_frame DFS_step_frame Dijkstra_step_frame AStar_step_frame)

lemma race_step_commute:
  assumes "a \<noteq> b" "race_step n1 a w = Inr w1" "race_step n2 b w1 = Inr w2"
  shows "\<exists>w1'. race_step n2 b w = Inr w1' \<and> race_step n1 a w1' = Inr w2"
proof -
  have g1: "race_grid w1 = race_grid w" and g2: "race_grid w2 = race_grid w1"
    using race_step_frame [OF assms(2)] race_step_frame [OF assms(3)] by simp_all
  show ?thesis
    using assms g1 g2
    by (cases a; cases b) (auto simp: bindE_eq_Inr)
qed

section \<open>A finished search stays as it is\<close>

lemma BFS_step_clock:
  assumes "BFS_step now s = Inr s'" "0 < now" "0 \<le> t1 s" "s_done s \<longrightarrow> 0 < t1 s"
  shows "0 \<le> t1 s' \<and> (s_done s' \<longrightarrow> 0 < t1 s')"
  using assms
  by (auto simp: BFS_step_def Let_def bindE_eq_Inr split: if_splits list.splits)

lemma reach_BFS_clock: "reach_BFS s \<Longrightarrow> 0 \<le> t1 s \<and> (s_done s \<longrightarrow> 0 < t1 s)"
proof (induction rule: reach_BFS.induct)
  case (1 g st gl)
  show ?case
    by (simp add: BFS_init_def IncrementalSearch_init_def IncrementalSearch.defs BFS.defs)
next
  case (2 s now)
  then show ?case by (simp add: begin_search_def)
next
  case (3 s now s')
  then show ?case using BFS_step_clock by blast
next
  case (4 s now)
  then show ?case by (simp add: reset_metrics_def)
next
  case (5 s)
  then show ?case by (simp add: search_consume_dirty_def)
next
  case (6 s n e v opt)
  then show ?case by simp
qed

lemma BFS_step_done: "s_done s \<Longrightarrow> t1 s \<noteq> 0 \<Longrightarrow> BFS_step now s = Inr s"
  by (simp add: BFS_step_def finish_idle_done)

lemma BFS_steps_done: "s_done s \<Longrightarrow> t1 s \<noteq> 0 \<Longrightarrow> BFS_steps nows s = Inr s"
  by (induction nows) (simp_all add: BFS_step_done)

lemma reach_BFS_steps:
  "reach_BFS s \<Longrightarrow> list_all (\<lambda>now. 0 < now) nows \<Longrightarrow> BFS_steps nows s = Inr s' \<Longrightarrow> reach_BFS s'"
proof (induction nows arbitrary: s)
  case Nil
  then show ?case by simp
next
  case (Cons now nows)
  from Cons.prems(3) obtain s1 where 1: "BFS_step now s = Inr s1" and 2: "BFS_steps nows s1 = Inr s'"
    by (auto simp: bindE_eq_Inr)
  have "reach_BFS s1"
    using Cons.prems(1,2) 1 by (auto intro: reach_BFS.intros(3))
  then show ?case using Cons.IH 2 Cons.prems(2) by simp
qed

lemma DFS_step_clock:
  assumes "DFS_step now s = Inr s'" "0 < now" "0 \<le> t1 s" "s_done s \<longrightarrow> 0 < t1 s"
  shows "0 \<le> t1 s' \<and> (s_done s' \<longrightarrow> 0 < t1 s')"
  using assms
  by (auto simp: DFS_step_def Let_def bindE_eq_Inr split: if_splits list.splits)

lemma reach_DFS_clock: "reach_DFS s \<Longrightarrow> 0 \<le> t1 s \<and> (s_done s \<longrightarrow> 0 < t1 s)"
proof (induction rule: reach_DFS.induct)
  case (1 g st gl)
  show ?case
    by (simp add: DFS_init_def IncrementalSearch_init_def IncrementalSearch.defs DFS.defs)
next
  case (2 s now)
  then show ?case by (simp add: begin_search_def)
next
  case (3 s now s')
  then show ?case using DFS_step_clock by blast
next
  case (4 s now)
  then show ?case by (simp add: reset_metrics_def)
next
  case (5 s)
  then show ?case by (simp add: search_consume_dirty_def)
next
  case (6 s n e v opt)
  then show ?case by simp
qed

lemma DFS_step_done: "s_done s \<Longrightarrow> t1 s \<noteq> 0 \<Longrightarrow> DFS_step now s = Inr s"
  by (simp add: DFS_step_def finish_idle_done)

lemma DFS_steps_done: "s_done s \<Longrightarrow> t1 s \<noteq> 0 \<Longrightarrow> DFS_steps nows s = Inr s"
  by (induction nows) (simp_all add: DFS_step_done)

lemma reach_DFS_steps:
  "reach_DFS s \<Longrightarrow> list_all (\<lambda>now. 0 < now) nows \<Longrightarrow> DFS_steps nows s = Inr s' \<Longrightarrow> reach_DFS s'"
proof (induction nows arbitrary: s)
  case Nil
  then show ?case by simp
next
  case (Cons now nows)
  from Cons.prems(3) obtain s1 where 1: "DFS_step now s = Inr s1" and 2: "DFS_steps nows s1 = Inr s'"
    by (auto simp: bindE_eq_Inr)
  have "reach_DFS s1"
    using Cons.prems(1,2) 1 by (auto intro: reach_DFS.intros(3))
  then show ?case using Cons.IH 2 Cons.prems(2) by simp
qed

lemma Dijkstra_step_clock:
  assumes "Dijkstra_step now s = Inr s'" "0 < now" "0 \<le> t1 s" "s_done s \<longrightarrow> 0 < t1 s"
  shows "0 \<le> t1 s' \<and> (s_done s' \<longrightarrow> 0 < t1 s')"
  using assms
  by (auto simp: Dijkstra_step_def Let_def bindE_eq_Inr split: if_splits list.splits)

lemma reach_Dijkstra_clock: "reach_Dijkstra s \<Longrightarrow> 0 \<le> t1 s \<and> (s_done s \<longrightarrow> 0 < t1 s)"
proof (induction rule: reach_Dijkstra.induct)
  case (1 g st gl)
  show ?case
    by (simp add: Dijkstra_init_def IncrementalSearch_init_def IncrementalSearch.defs Dijkstra.defs)
next
  case (2 s now)
  then show ?case by (simp add: begin_search_def)
next
  case (3 s now s')
  then show ?case using Dijkstra_step_clock by blast
next
  case (4 s now)
  then show ?case by (simp add: reset_metrics_def)
next
  case (5 s)
  then show ?case by (simp add: search_consume_dirty_def)
next
  case (6 s n e v opt)
  then show ?case by simp
qed

lemma Dijkstra_step_done: "s_done s \<Longrightarrow> t1 s \<noteq> 0 \<Longrightarrow> Dijkstra_step now s = Inr s"
  by (simp add: Dijkstra_step_def finish_idle_done)

lemma Dijkstra_steps_done: "s_done s \<Longrightarrow> t1 s \<noteq> 0 \<Longrightarrow> Dijkstra_steps nows s = Inr s"
  by (induction nows) (simp_all add: Dijkstra_step_done)

lemma reach_Dijkstra_steps:
  "reach_Dijkstra s \<Longrightarrow> list_all (\<lambda>now. 0 < now) nows \<Longrightarrow> Dijkstra_steps nows s = Inr s' \<Longrightarrow> reach_Dijkstra s'"
proof (induction nows arbitrary: s)
  case Nil
  then show ?case by simp
next
  case (Cons now nows)
  from Cons.prems(3) obtain s1 where 1: "Dijkstra_step now s = Inr s1" and 2: "Dijkstra_steps nows s1 = Inr s'"
    by (auto simp: bindE_eq_Inr)
  have "reach_Dijkstra s1"
    using Cons.prems(1,2) 1 by (auto intro: reach_Dijkstra.intros(3))
  then show ?case using Cons.IH 2 Cons.prems(2) by simp
qed

lemma AStar_step_clock:
  assumes "AStar_step now s = Inr s'" "0 < now" "0 \<le> t1 s" "s_done s \<longrightarrow> 0 < t1 s"
  shows "0 \<le> t1 s' \<and> (s_done s' \<longrightarrow> 0 < t1 s')"
  using assms
  by (auto simp: AStar_step_def Let_def bindE_eq_Inr split: if_splits list.splits dest!: AStar_fold_frame)

lemma reach_AStar_clock: "reach_AStar s \<Longrightarrow> 0 \<le> t1 s \<and> (s_done s \<longrightarrow> 0 < t1 s)"
proof (induction rule: reach_AStar.induct)
  case (1 g st gl)
  show ?case
    by (simp add: AStar_init_def IncrementalSearch_init_def IncrementalSearch.defs AStar.defs)
next
  case (2 s now)
  then show ?case by (simp add: begin_search_def)
next
  case (3 s now s')
  then show ?case using AStar_step_clock by blast
next
  case (4 s now)
  then show ?case by (simp add: reset_metrics_def)
next
  case (5 s)
  then show ?case by (simp add: search_consume_dirty_def)
next
  case (6 s n e v opt)
  then show ?case by simp
qed

lemma AStar_step_done: "s_done s \<Longrightarrow> t1 s \<noteq> 0 \<Longrightarrow> AStar_step now s = Inr s"
  by (simp add: AStar_step_def finish_idle_done)

lemma AStar_steps_done: "s_done s \<Longrightarrow> t1 s \<noteq> 0 \<Longrightarrow> AStar_steps nows s = Inr s"
  by (induction nows) (simp_all add: AStar_step_done)

lemma reach_AStar_steps:
  "reach_AStar s \<Longrightarrow> list_all (\<lambda>now. 0 < now) nows \<Longrightarrow> AStar_steps nows s = Inr s' \<Longrightarrow> reach_AStar s'"
proof (induction nows arbitrary: s)
  case Nil
  then show ?case by simp
next
  case (Cons now nows)
  from Cons.prems(3) obtain s1 where 1: "AStar_step now s = Inr s1" and 2: "AStar_steps nows s1 = Inr s'"
    by (auto simp: bindE_eq_Inr)
  have "reach_AStar s1"
    using Cons.prems(1,2) 1 by (auto intro: reach_AStar.intros(3))
  then show ?case using Cons.IH 2 Cons.prems(2) by simp
qed

lemma reach_CBFS_clock: "reach_CBFS s \<Longrightarrow> status s \<noteq> RUNNING \<longrightarrow> end_time s \<noteq> None"
proof (induction rule: reach_CBFS.induct)
  case (1 now m st gl)
  show ?case by (simp add: CBFS_init_def)
next
  case (2 s now s')
  then show ?case
    by (auto simp: CBFS_step_def Let_def bindE_eq_Inr split: if_splits list.splits)
qed

lemma CBFS_steps_done: "status s \<noteq> RUNNING \<Longrightarrow> CBFS_steps nows s = Inr s"
  by (induction nows) (simp_all add: CBFS_step_def)

lemma C_get_metrics_fixed: "end_time s \<noteq> None \<Longrightarrow> C_get_metrics ms now s = C_get_metrics ms now' s"
  by (auto simp add: C_get_metrics_def)

lemma reach_CBFS_steps:
  "reach_CBFS s \<Longrightarrow> CBFS_steps nows s = Inr s' \<Longrightarrow> reach_CBFS s'"
proof (induction nows arbitrary: s)
  case Nil
  then show ?case by simp
next
  case (Cons now nows)
  from Cons.prems(2) obtain s1 where 1: "CBFS_step now s = Inr s1" and 2: "CBFS_steps nows s1 = Inr s'"
    by (auto simp: bindE_eq_Inr)
  have "reach_CBFS s1"
    using Cons.prems(1) 1 by (auto intro: reach_CBFS.intros(2))
  then show ?case using Cons.IH 2 by simp
qed

section \<open>C3: the order of the neighbour enumerations\<close>

text \<open>
  C3, as stated, asks every neighbour enumeration to list the in-bounds candidates
  in the order up, right, down, left.  GeminiPro's \<open>Grid.get_neighbors\<close> lists them
  up, down, left, right, and the iterative Claude \<open>Maze.neighbors\<close> lists them up,
  left, right, down: at an interior coordinate, where all four candidates are in
  bounds, neither returns the list the claim describes.
\<close>

theorem C3_order_counterexample:
  "bindE (GGrid_init 5 5) (\<lambda>g. get_neighbors g 2 2 1 True)
     \<noteq> Inr [(2 - 1, 2), (2, 2 + 1), (2 + 1, 2), (2, 2 - 1)]
   \<and> neighbors_C (CMaze_init 3 3) 1 1 \<noteq> [(1 - 1, 1), (1, 1 + 1), (1 + 1, 1), (1, 1 - 1)]"
  by (simp add: get_neighbors_def GGrid_init_def is_valid_def py_set2_def py_get_def py_set_def
      neighbors_C_def CMaze_init_def Let_def)

text \<open>
  C3 (amended): each neighbour enumeration lists its candidates in an order that is
  fixed for that enumeration, and raises nothing.  The order is up, right, down,
  left for the \<open>_neighbors\<close> of the four ChatGPT5 OneShot searches (the in-bounds
  candidates that are not walls) and for \<open>Grid.neighbors_cells\<close> of that variant
  (the in-bounds candidates).  It is up, down, left, right for GeminiPro's
  \<open>Grid.get_neighbors\<close> at every step size: the in-bounds candidates when
  \<open>include_walls\<close> is true, and with the default \<open>include_walls = False\<close> those of
  them that are passages.  It is up, left, right, down for the iterative Claude
  \<open>Maze.neighbors\<close> (the in-bounds candidates).
\<close>

theorem C3_neighbor_orders:
  "(wf_grid g \<longrightarrow> search_neighbors g (r, c) =
      Inr (filter (\<lambda>p. in_bounds g (fst p) (snd p) \<and> cell g p \<noteq> wall g)
             [(r - 1, c), (r, c + 1), (r + 1, c), (r, c - 1)]))
   \<and> neighbors_cells g (r, c) =
        filter (\<lambda>p. in_bounds g (fst p) (snd p)) [(r - 2, c), (r, c + 2), (r + 2, c), (r, c - 2)]
   \<and> get_neighbors gg r c step True =
        Inr (filter (\<lambda>p. is_valid gg (fst p) (snd p))
               [(r - step, c), (r + step, c), (r, c - step), (r, c + step)])
   \<and> (wf_GGrid gg \<longrightarrow> get_neighbors gg r c step False =
        Inr (filter (\<lambda>p. is_valid gg (fst p) (snd p)
                         \<and> grid_G gg ! nat (fst p) ! nat (snd p) = PASSAGE)
               [(r - step, c), (r + step, c), (r, c - step), (r, c + step)]))
   \<and> neighbors_C m r c =
        filter (\<lambda>p. 0 \<le> fst p \<and> fst p < cell_rows m \<and> 0 \<le> snd p \<and> snd p < cell_cols m)
          [(r - 1, c), (r, c - 1), (r, c + 1), (r + 1, c)]"
proof (intro conjI impI)
  assume "wf_grid g"
  then show "search_neighbors g (r, c) =
      Inr (filter (\<lambda>p. in_bounds g (fst p) (snd p) \<and> cell g p \<noteq> wall g)
             [(r - 1, c), (r, c + 1), (r + 1, c), (r, c - 1)])"
    by (rule search_neighbors_wf)
next
  show "neighbors_cells g (r, c) =
        filter (\<lambda>p. in_bounds g (fst p) (snd p)) [(r - 2, c), (r, c + 2), (r + 2, c), (r, c - 2)]"
    by (simp add: neighbors_cells_def)
next
  show "get_neighbors gg r c step True =
        Inr (filter (\<lambda>p. is_valid gg (fst p) (snd p))
               [(r - step, c), (r + step, c), (r, c - step), (r, c + step)])"
    by (rule get_neighbors_walls)
next
  assume "wf_GGrid gg"
  then show "get_neighbors gg r c step False =
        Inr (filter (\<lambda>p. is_valid gg (fst p) (snd p)
                         \<and> grid_G gg ! nat (fst p) ! nat (snd p) = PASSAGE)
               [(r - step, c), (r + step, c), (r, c - step), (r, c + step)])"
    by (rule get_neighbors_passages)
next
  show "neighbors_C m r c =
        filter (\<lambda>p. 0 \<le> fst p \<and> fst p < cell_rows m \<and> 0 \<le> snd p \<and> snd p < cell_cols m)
          [(r - 1, c), (r, c - 1), (r, c + 1), (r + 1, c)]"
    by (simp add: neighbors_C_def)
qed

text \<open>
  At the centre of a three by three grid whose four adjacent positions are open,
  each enumeration returns all four of them, in its own order.
\<close>

theorem C3_neighbor_orders_witness:
  "wf_grid cross3 \<and> wf_GGrid gcross3
   \<and> search_neighbors cross3 (1, 1) = Inr [(0, 1), (1, 2), (2, 1), (1, 0)]
   \<and> neighbors_cells cross3 (1, 1) = []
   \<and> get_neighbors gcross3 1 1 1 True = Inr [(0, 1), (2, 1), (1, 0), (1, 2)]
   \<and> get_neighbors gcross3 1 1 1 False = Inr [(0, 1), (2, 1), (1, 0), (1, 2)]
   \<and> get_neighbors gcross3 1 1 2 False = Inr []
   \<and> neighbors_C (CMaze_init 3 3) 1 1 = [(0, 1), (1, 0), (1, 2), (2, 1)]"
proof -
  have w: "wf_grid cross3"
    by (simp add: wf_grid_def cross3_def)
  have wg: "wf_GGrid gcross3"
    by (simp add: wf_GGrid_def gcross3_def)
  note C3 = C3_neighbor_orders [of cross3 1 1 gcross3 _ "CMaze_init 3 3"]
  have "search_neighbors cross3 (1, 1) = Inr [(0, 1), (1, 2), (2, 1), (1, 0)]"
    using C3 [of 1] w by (simp add: in_bounds_def cell_def cross3_def)
  moreover have "neighbors_cells cross3 (1, 1) = []"
    using C3 [of 1] by (simp add: in_bounds_def cross3_def)
  moreover have "get_neighbors gcross3 1 1 1 True = Inr [(0, 1), (2, 1), (1, 0), (1, 2)]"
    using C3 [of 1] by (simp add: is_valid_def gcross3_def)
  moreover have "get_neighbors gcross3 1 1 1 False = Inr [(0, 1), (2, 1), (1, 0), (1, 2)]"
    using C3 [of 1] wg by (simp add: is_valid_def gcross3_def)
  moreover have "get_neighbors gcross3 1 1 2 False = Inr []"
    using C3 [of 2] wg by (simp add: is_valid_def gcross3_def)
  moreover have "neighbors_C (CMaze_init 3 3) 1 1 = [(0, 1), (1, 0), (1, 2), (2, 1)]"
    using C3 [of 1] by (simp add: CMaze_init_def Let_def)
  ultimately show ?thesis using w wg by simp
qed

section \<open>C7: querying a position outside the grid\<close>




section \<open>C10: a search step never touches the shared grid\<close>

lemmas eval_search = search_neighbors_def in_bounds_def is_wall_def py_get2_def py_get_def
  corridor3_def lookupE_def reconstruct_def finish_idle_def Let_def
  IncrementalSearch_init_def IncrementalSearch.defs

text \<open>
  C10: a \<open>step()\<close> of BFS, DFS, Dijkstra or A* (ChatGPT5 OneShot) that returns leaves
  the grid object it was given as it was (the cell matrix, the grid's start and goal
  and its dirty set: the whole \<open>Grid\<close> value) and leaves the search's start and goal;
  the iterative Claude BFS likewise leaves its maze, start and goal.  In a race over
  one shared grid, stepping one runner changes neither the shared grid nor any
  other runner, so two steps of different runners give the same race state in
  either order.
\<close>

theorem C10_search_step_frame:
  "(BFS_step now b = Inr b' \<longrightarrow>
      s_grid b' = s_grid b \<and> s_start b' = s_start b \<and> s_goal b' = s_goal b)
   \<and> (DFS_step now d = Inr d' \<longrightarrow>
      s_grid d' = s_grid d \<and> s_start d' = s_start d \<and> s_goal d' = s_goal d)
   \<and> (Dijkstra_step now j = Inr j' \<longrightarrow>
      s_grid j' = s_grid j \<and> s_start j' = s_start j \<and> s_goal j' = s_goal j)
   \<and> (AStar_step now a = Inr a' \<longrightarrow>
      s_grid a' = s_grid a \<and> s_start a' = s_start a \<and> s_goal a' = s_goal a)
   \<and> (CBFS_step now c = Inr c' \<longrightarrow>
      c_maze c' = c_maze c \<and> c_start c' = c_start c \<and> c_goal c' = c_goal c)
   \<and> (race_step now x w = Inr w' \<longrightarrow>
      race_grid w' = race_grid w
      \<and> (x \<noteq> RunBFS \<longrightarrow> run_BFS w' = run_BFS w)
      \<and> (x \<noteq> RunDFS \<longrightarrow> run_DFS w' = run_DFS w)
      \<and> (x \<noteq> RunDijkstra \<longrightarrow> run_Dijkstra w' = run_Dijkstra w)
      \<and> (x \<noteq> RunAStar \<longrightarrow> run_AStar w' = run_AStar w))
   \<and> (x \<noteq> y \<and> race_step now x w = Inr w1 \<and> race_step now' y w1 = Inr w2 \<longrightarrow>
      (\<exists>v. race_step now' y w = Inr v \<and> race_step now x v = Inr w2))"
proof (intro conjI impI)
  assume "BFS_step now b = Inr b'"
  from BFS_step_frame [OF this]
  show "s_grid b' = s_grid b" "s_start b' = s_start b" "s_goal b' = s_goal b" by simp_all
next
  assume "DFS_step now d = Inr d'"
  from DFS_step_frame [OF this]
  show "s_grid d' = s_grid d" "s_start d' = s_start d" "s_goal d' = s_goal d" by simp_all
next
  assume "Dijkstra_step now j = Inr j'"
  from Dijkstra_step_frame [OF this]
  show "s_grid j' = s_grid j" "s_start j' = s_start j" "s_goal j' = s_goal j" by simp_all
next
  assume "AStar_step now a = Inr a'"
  from AStar_step_frame [OF this]
  show "s_grid a' = s_grid a" "s_start a' = s_start a" "s_goal a' = s_goal a" by simp_all
next
  assume "CBFS_step now c = Inr c'"
  from CBFS_step_frame [OF this]
  show "c_maze c' = c_maze c" "c_start c' = c_start c" "c_goal c' = c_goal c" by simp_all
next
  assume r: "race_step now x w = Inr w'"
  note f = race_step_frame [OF r]
  show "race_grid w' = race_grid w" using f by simp
  { assume "x \<noteq> RunBFS" then show "run_BFS w' = run_BFS w" using f by simp }
  { assume "x \<noteq> RunDFS" then show "run_DFS w' = run_DFS w" using f by simp }
  { assume "x \<noteq> RunDijkstra" then show "run_Dijkstra w' = run_Dijkstra w" using f by simp }
  { assume "x \<noteq> RunAStar" then show "run_AStar w' = run_AStar w" using f by simp }
next
  assume "x \<noteq> y \<and> race_step now x w = Inr w1 \<and> race_step now' y w1 = Inr w2"
  then show "\<exists>v. race_step now' y w = Inr v \<and> race_step now x v = Inr w2"
    using race_step_commute by blast
qed

theorem C10_search_step_frame_witness:
  "(case race_step 5 RunBFS (start_race corridor3 1 2 3 4) of Inl e \<Rightarrow> False
    | Inr w1 \<Rightarrow> race_grid w1 = corridor3
        \<and> run_DFS w1 = begin_search 2 (DFS_init corridor3 (1, 1) (1, 2))
        \<and> (case race_step 6 RunDFS w1 of Inl e \<Rightarrow> False | Inr w2 \<Rightarrow> race_grid w2 = corridor3))
   \<and> (case BFS_step 1 (BFS_init corridor3 (1, 1) (1, 2)) of Inl e \<Rightarrow> False
       | Inr b' \<Rightarrow> s_grid b' = corridor3)"
proof -
  let ?w = "start_race corridor3 1 2 3 4"
  obtain w1 where 1: "race_step 5 RunBFS ?w = Inr w1"
    using exI [of "\<lambda>w. race_step 5 RunBFS ?w = Inr w"]
    by (simp add: start_race_def begin_search_def BFS_step_def BFS_init_def BFS.defs
        BFS_visit_def eval_search)
  have g0: "race_grid ?w = corridor3"
    and d0: "run_DFS ?w = begin_search 2 (DFS_init corridor3 (1, 1) (1, 2))"
    by (simp_all add: start_race_def corridor3_def)
  have f1: "race_grid w1 = corridor3"
    "run_DFS w1 = begin_search 2 (DFS_init corridor3 (1, 1) (1, 2))"
    using C10_search_step_frame [where x = RunBFS and w = ?w and w' = w1 and now = 5] 1 g0 d0
    by simp_all
  obtain w2 where 2: "race_step 6 RunDFS w1 = Inr w2"
    using f1
    by (simp add: begin_search_def DFS_step_def DFS_init_def DFS.defs DFS_visit_def eval_search)
  have f2: "race_grid w2 = corridor3"
    using C10_search_step_frame [where x = RunDFS and w = w1 and w' = w2 and now = 6] 2 f1
    by simp
  obtain b' where 3: "BFS_step 1 (BFS_init corridor3 (1, 1) (1, 2)) = Inr b'"
    by (simp add: BFS_step_def BFS_init_def BFS.defs BFS_visit_def eval_search)
  have f3: "s_grid b' = corridor3"
    using C10_search_step_frame [where now = 1 and b = "BFS_init corridor3 (1, 1) (1, 2)"
        and b' = b'] 3
    by (simp add: BFS_init_def BFS.defs eval_search)
  show ?thesis using 1 2 3 f1 f2 f3 by simp
qed

section \<open>C6: stepping a finished search\<close>

text \<open>
  C6, as stated, makes \<open>step()\<close> a no-op on every finished search.  The first branch
  of the ChatGPT5 OneShot \<open>step\<close> stamps the end time when it is still zero, and
  \<open>reset_metrics()\<close> zeroes it without clearing \<open>_done\<close>: on a finished BFS whose
  metrics were reset at time 3, \<open>get_metrics()\<close> read at time 5 gives 2000 ms before
  a \<open>step()\<close> at time 4 and 1000 ms after it.
\<close>

theorem C6_reset_counterexample:
  "bindE (BFS_steps [1, 2] (BFS_init corridor3 (1, 1) (1, 2)))
     (\<lambda>s. Inr (is_done (reset_metrics 3 s),
                m_runtime_ms (get_metrics whole_ms 5 (reset_metrics 3 s))))
     = Inr (True, 2000)
   \<and> bindE (BFS_steps [1, 2] (BFS_init corridor3 (1, 1) (1, 2)))
       (\<lambda>s. bindE (BFS_step 4 (reset_metrics 3 s))
              (\<lambda>s'. Inr (m_runtime_ms (get_metrics whole_ms 5 s'))))
     = Inr 1000"
  by (simp add: BFS_step_def BFS_init_def BFS.defs BFS_visit_def eval_search
      reset_metrics_def is_done_def get_metrics_def whole_ms_def py_int_def)

text \<open>
  C6 (amended): take a search (BFS, DFS, Dijkstra or A* of the ChatGPT5 OneShot
  variant, or the iterative Claude BFS) in a state a driver can reach by the
  constructor, \<open>begin()\<close>, \<open>step()\<close>, \<open>consume_dirty()\<close>, its own writes to the
  display fields and, while the search is still running, \<open>reset_metrics()\<close>, under a
  clock with positive readings, and let \<open>is_done()\<close> be true.  Then any number of further \<open>step()\<close> calls, whatever the clock reads, raise
  nothing and leave \<open>is_done()\<close> true, the path as it was, and \<open>get_metrics()\<close> (read
  at any later time) equal to what it returned before (read at any earlier time).
\<close>

theorem C6_step_after_done:
  "(reach_BFS b \<and> is_done b \<longrightarrow>
      (\<exists>b'. BFS_steps nows b = Inr b' \<and> is_done b' \<and> path b' = path b
         \<and> get_metrics ms later b' = get_metrics ms earlier b))
   \<and> (reach_DFS d \<and> is_done d \<longrightarrow>
      (\<exists>d'. DFS_steps nows d = Inr d' \<and> is_done d' \<and> path d' = path d
         \<and> get_metrics ms later d' = get_metrics ms earlier d))
   \<and> (reach_Dijkstra j \<and> is_done j \<longrightarrow>
      (\<exists>j'. Dijkstra_steps nows j = Inr j' \<and> is_done j' \<and> path j' = path j
         \<and> get_metrics ms later j' = get_metrics ms earlier j))
   \<and> (reach_AStar a \<and> is_done a \<longrightarrow>
      (\<exists>a'. AStar_steps nows a = Inr a' \<and> is_done a' \<and> path a' = path a
         \<and> get_metrics ms later a' = get_metrics ms earlier a))
   \<and> (reach_CBFS c \<and> C_is_done c \<longrightarrow>
      (\<exists>c'. CBFS_steps nows c = Inr c' \<and> C_is_done c' \<and> C_get_path c' = C_get_path c
         \<and> C_get_metrics ms later c' = C_get_metrics ms earlier c))"
proof (intro conjI impI)
  assume "reach_BFS b \<and> is_done b"
  then have "s_done b" "0 < t1 b"
    using reach_BFS_clock [of b] by (simp_all add: is_done_def)
  then show "\<exists>b'. BFS_steps nows b = Inr b' \<and> is_done b' \<and> path b' = path b
         \<and> get_metrics ms later b' = get_metrics ms earlier b"
    using BFS_steps_done [of b nows] get_metrics_fixed [of b ms later earlier]
    by (simp add: is_done_def)
next
  assume "reach_DFS d \<and> is_done d"
  then have "s_done d" "0 < t1 d"
    using reach_DFS_clock [of d] by (simp_all add: is_done_def)
  then show "\<exists>d'. DFS_steps nows d = Inr d' \<and> is_done d' \<and> path d' = path d
         \<and> get_metrics ms later d' = get_metrics ms earlier d"
    using DFS_steps_done [of d nows] get_metrics_fixed [of d ms later earlier]
    by (simp add: is_done_def)
next
  assume "reach_Dijkstra j \<and> is_done j"
  then have "s_done j" "0 < t1 j"
    using reach_Dijkstra_clock [of j] by (simp_all add: is_done_def)
  then show "\<exists>j'. Dijkstra_steps nows j = Inr j' \<and> is_done j' \<and> path j' = path j
         \<and> get_metrics ms later j' = get_metrics ms earlier j"
    using Dijkstra_steps_done [of j nows] get_metrics_fixed [of j ms later earlier]
    by (simp add: is_done_def)
next
  assume "reach_AStar a \<and> is_done a"
  then have "s_done a" "0 < t1 a"
    using reach_AStar_clock [of a] by (simp_all add: is_done_def)
  then show "\<exists>a'. AStar_steps nows a = Inr a' \<and> is_done a' \<and> path a' = path a
         \<and> get_metrics ms later a' = get_metrics ms earlier a"
    using AStar_steps_done [of a nows] get_metrics_fixed [of a ms later earlier]
    by (simp add: is_done_def)
next
  assume "reach_CBFS c \<and> C_is_done c"
  then have "status c \<noteq> RUNNING" "end_time c \<noteq> None"
    using reach_CBFS_clock [of c] by (simp_all add: C_is_done_def)
  then show "\<exists>c'. CBFS_steps nows c = Inr c' \<and> C_is_done c' \<and> C_get_path c' = C_get_path c
         \<and> C_get_metrics ms later c' = C_get_metrics ms earlier c"
    using CBFS_steps_done [of c nows] C_get_metrics_fixed [of c ms later earlier]
    by (simp add: C_is_done_def)
qed

theorem C6_step_after_done_witness:
  "(case BFS_steps [1, 2] (BFS_init corridor3 (1, 1) (1, 2)) of Inl e \<Rightarrow> False
    | Inr s \<Rightarrow> reach_BFS s \<and> is_done s \<and> path s = Some [(1, 1), (1, 2)]
        \<and> (case BFS_steps [3, 0, - 5] s of Inl e \<Rightarrow> False
            | Inr s' \<Rightarrow> path s' = Some [(1, 1), (1, 2)]
                \<and> get_metrics whole_ms 9 s' = get_metrics whole_ms 6 s))
   \<and> (case CBFS_steps [1, 2] (CBFS_init 1 (CMaze_init 1 1) (0, 0) (0, 0)) of Inl e \<Rightarrow> False
       | Inr c \<Rightarrow> reach_CBFS c \<and> C_is_done c
           \<and> (case CBFS_steps [3, 4] c of Inl e \<Rightarrow> False
               | Inr c' \<Rightarrow> C_get_path c' = [(0, 0)]
                   \<and> C_get_metrics whole_ms 9 c' = C_get_metrics whole_ms 6 c))"
proof -
  obtain s where e: "BFS_steps [1, 2] (BFS_init corridor3 (1, 1) (1, 2)) = Inr s"
    and d: "s_done s" and p: "path s = Some [(1, 1), (1, 2)]"
    using exI [of "\<lambda>s. BFS_steps [1, 2] (BFS_init corridor3 (1, 1) (1, 2)) = Inr s"]
    by (simp add: BFS_step_def BFS_init_def BFS.defs BFS_visit_def eval_search)
  have r: "reach_BFS s"
    by (rule reach_BFS_steps [OF reach_BFS.intros(1) _ e]) simp
  have "is_done s"
    using d by (simp add: is_done_def)
  with r have "\<exists>b'. BFS_steps [3, 0, - 5] s = Inr b' \<and> is_done b' \<and> path b' = path s
         \<and> get_metrics whole_ms 9 b' = get_metrics whole_ms 6 s"
    using C6_step_after_done [where b = s and nows = "[3, 0, - 5]" and later = 9 and earlier = 6
        and ms = whole_ms]
    by blast
  then obtain s' where e': "BFS_steps [3, 0, - 5] s = Inr s'" and p': "path s' = path s"
    and m': "get_metrics whole_ms 9 s' = get_metrics whole_ms 6 s"
    by blast
  obtain c where ce: "CBFS_steps [1, 2] (CBFS_init 1 (CMaze_init 1 1) (0, 0) (0, 0)) = Inr c"
    and cd: "C_is_done c" and cp: "c_path c = [(0, 0)]"
    using exI [of "\<lambda>c. CBFS_steps [1, 2] (CBFS_init 1 (CMaze_init 1 1) (0, 0) (0, 0)) = Inr c"]
    by (simp add: CBFS_step_def CBFS_init_def C_reconstruct_path_def C_is_done_def
        lookupE_def Let_def)
  have cr: "reach_CBFS c"
    by (rule reach_CBFS_steps [OF reach_CBFS.intros(1) ce])
  have "\<exists>c'. CBFS_steps [3, 4] c = Inr c' \<and> C_is_done c' \<and> C_get_path c' = C_get_path c
         \<and> C_get_metrics whole_ms 9 c' = C_get_metrics whole_ms 6 c"
    using C6_step_after_done [where c = c and nows = "[3, 4]" and later = 9 and earlier = 6
        and ms = whole_ms]
      cr cd by blast
  then obtain c' where ce': "CBFS_steps [3, 4] c = Inr c'" and cp': "C_get_path c' = C_get_path c"
    and cm': "C_get_metrics whole_ms 9 c' = C_get_metrics whole_ms 6 c"
    by blast
  show ?thesis
    using e d p r e' p' m' ce cd cp cr ce' cp' cm'
    by (simp add: is_done_def C_get_path_def)
qed

section \<open>The Prim generator keeps its invariant\<close>

lemma same_shape_refl [simp]: "same_shape g g"
  by (simp add: same_shape_def)

lemma same_shape_trans: "same_shape g g1 \<Longrightarrow> same_shape g1 g2 \<Longrightarrow> same_shape g g2"
  by (simp add: same_shape_def)

lemma same_shape_in_bounds: "same_shape g g' \<Longrightarrow> in_bounds g' r c = in_bounds g r c"
  by (simp add: same_shape_def in_bounds_def)

lemma set_free_inside:
  assumes "wf_grid g" "in_bounds g r c"
  shows "\<exists>g'. set_free g (r, c) = Inr g' \<and> wf_grid g' \<and> same_shape g g'
     \<and> (\<forall>p. in_bounds g (fst p) (snd p) \<longrightarrow> cell g' p = (if p = (r, c) then free g else cell g p))"
proof -
  let ?m = "grid g"
  have len: "length ?m = nat (rows g)" and rowlen: "list_all (\<lambda>row. length row = nat (cols g)) ?m"
    and b: "0 \<le> r" "r < rows g" "0 \<le> c" "c < cols g"
    using assms by (simp_all add: wf_grid_def in_bounds_def)
  have get: "py_get2 ?m r c = Inr (cell g (r, c))"
    using py_get2_inside [OF len rowlen b] by (simp add: cell_def)
  show ?thesis
  proof (cases "cell g (r, c) = free g")
    case True
    then have "set_free g (r, c) = Inr g"
      by (simp add: set_free_def get)
    then show ?thesis using assms True by auto
  next
    case False
    let ?m' = "?m[nat r := (?m ! nat r)[nat c := free g]]"
    let ?g' = "g\<lparr> grid := ?m', dirty := insert (r, c) (dirty g) \<rparr>"
    have sf: "set_free g (r, c) = Inr ?g'"
      using False py_set2_inside [OF len rowlen b, of "free g"]
      by (simp add: set_free_def get)
    have "nat r < length ?m" using b len by simp
    then have wf: "wf_grid ?g'"
      using assms(1) by (auto simp: wf_grid_def list_all_length nth_list_update)
    have cells: "cell ?g' p = (if p = (r, c) then free g else cell g p)"
      if "in_bounds g (fst p) (snd p)" for p
    proof -
      obtain r' c' where p: "p = (r', c')" by (cases p)
      have b': "0 \<le> r'" "r' < rows g" "0 \<le> c'" "c' < cols g"
        using that p by (simp_all add: in_bounds_def)
      have l1: "nat r' < length ?m" "nat r < length ?m" using b b' len by simp_all
      have l2: "nat c' < length (?m ! nat r)" "nat c < length (?m ! nat r)"
        using rowlen l1 b b' by (simp_all add: list_all_length)
      show ?thesis
        using b b' l1 l2 p by (auto simp: cell_def nth_list_update)
    qed
    show ?thesis using sf wf cells by (auto simp: same_shape_def)
  qed
qed

lemma cell_adj_sym: "cell_adj p q \<Longrightarrow> cell_adj q p"
  by (cases p) (auto simp: cell_adj_def)

lemma neighbors_cells_iff:
  "n \<in> set (neighbors_cells g p) \<longleftrightarrow> cell_adj p n \<and> in_bounds g (fst n) (snd n)"
  by (cases p) (auto simp: neighbors_cells_def cell_adj_def)

lemma distinct_neighbors_cells: "distinct (neighbors_cells g p)"
  by (cases p) (auto simp: neighbors_cells_def)

lemma same_shape_neighbors_cells: "same_shape g g' \<Longrightarrow> neighbors_cells g' p = neighbors_cells g p"
  by (cases p) (simp add: neighbors_cells_def same_shape_in_bounds cong: filter_cong)

lemma cell_adj_cell: "cell_adj p n \<Longrightarrow> odd (fst p) \<and> odd (snd p) \<Longrightarrow> odd (fst n) \<and> odd (snd n)"
  by (cases p) (auto simp: cell_adj_def)

lemma midpoint_cases:
  "cell_adj a b \<Longrightarrow> midpoint a b = (fst a - 1, snd a) \<or> midpoint a b = (fst a, snd a + 1)
      \<or> midpoint a b = (fst a + 1, snd a) \<or> midpoint a b = (fst a, snd a - 1)"
  by (cases a) (auto simp: cell_adj_def midpoint_def)

lemma midpoint_in_bounds:
  "cell_adj a b \<Longrightarrow> in_bounds g (fst a) (snd a) \<Longrightarrow> in_bounds g (fst b) (snd b)
   \<Longrightarrow> in_bounds g (fst (midpoint a b)) (snd (midpoint a b))"
  by (cases a) (auto simp: cell_adj_def midpoint_def in_bounds_def)

lemma midpoint_not_cell:
  "cell_adj a b \<Longrightarrow> odd (fst a) \<and> odd (snd a) \<Longrightarrow> \<not> (odd (fst (midpoint a b)) \<and> odd (snd (midpoint a b)))"
  by (cases a) (auto simp: cell_adj_def midpoint_def)

lemma carve_passage_inside:
  assumes "wf_grid g" "in_bounds g (fst a) (snd a)" "in_bounds g (fst b) (snd b)" "cell_adj a b"
  shows "\<exists>g'. carve_passage g a b = Inr g' \<and> wf_grid g' \<and> same_shape g g'
     \<and> (\<forall>p. in_bounds g (fst p) (snd p) \<longrightarrow>
           cell g' p = (if p = a \<or> p = b \<or> p = midpoint a b then free g else cell g p))"
proof -
  obtain ar ac br bc where a: "a = (ar, ac)" and b: "b = (br, bc)"
    by (cases a; cases b) auto
  obtain g1 where 1: "set_free g a = Inr g1" "wf_grid g1" "same_shape g g1"
    and c1: "\<And>p. in_bounds g (fst p) (snd p) \<Longrightarrow> cell g1 p = (if p = a then free g else cell g p)"
    using set_free_inside [OF assms(1), of ar ac] assms(2) a by auto
  have b1: "in_bounds g1 br bc"
    using assms(3) b 1(3) by (simp add: same_shape_in_bounds)
  obtain g2 where 2: "set_free g1 b = Inr g2" "wf_grid g2" "same_shape g1 g2"
    and c2: "\<And>p. in_bounds g1 (fst p) (snd p) \<Longrightarrow> cell g2 p = (if p = b then free g1 else cell g1 p)"
    using set_free_inside [OF 1(2) b1] b by auto
  have m: "in_bounds g (fst (midpoint a b)) (snd (midpoint a b))"
    using midpoint_in_bounds assms by blast
  then have b2: "in_bounds g2 ((ar + br) div 2) ((ac + bc) div 2)"
    using 1(3) 2(3) a b by (simp add: same_shape_in_bounds midpoint_def)
  obtain g3 where 3: "set_free g2 (midpoint a b) = Inr g3" "wf_grid g3" "same_shape g2 g3"
    and c3: "\<And>p. in_bounds g2 (fst p) (snd p) \<Longrightarrow>
        cell g3 p = (if p = midpoint a b then free g2 else cell g2 p)"
    using set_free_inside [OF 2(2) b2] a b by (auto simp: midpoint_def)
  have cp: "carve_passage g a b = Inr g3"
    using 1(1) 2(1) 3(1) a b by (simp add: carve_passage_def midpoint_def)
  have sh: "same_shape g g3"
    using 1(3) 2(3) 3(3) same_shape_trans by blast
  have fr: "free g1 = free g" "free g2 = free g"
    using 1(3) 2(3) by (simp_all add: same_shape_def)
  have "cell g3 p = (if p = a \<or> p = b \<or> p = midpoint a b then free g else cell g p)"
    if "in_bounds g (fst p) (snd p)" for p
  proof -
    have "in_bounds g1 (fst p) (snd p)" "in_bounds g2 (fst p) (snd p)"
      using that 1(3) 2(3) by (simp_all add: same_shape_in_bounds)
    then show ?thesis
      using c1 [OF that] c2 [of p] c3 [of p] fr by auto
  qed
  then show ?thesis using cp 3(2) sh by blast
qed

lemma randint_range:
  "a \<le> b \<Longrightarrow> \<exists>v rng'. randint rng a b = Inr (v, rng') \<and> a \<le> v \<and> v \<le> b"
proof -
  assume ab: "a \<le> b"
  then have "0 < nat (b - a + 1)" by simp
  then have "draws rng (pos rng) mod nat (b - a + 1) < nat (b - a + 1)"
    by (rule mod_less_divisor)
  then have "int (draws rng (pos rng) mod nat (b - a + 1)) \<le> b - a" by linarith
  then show ?thesis using ab by (simp add: randint_def)
qed

lemma filterE_on: "(\<And>x. x \<in> set xs \<Longrightarrow> t x = Inr (P x)) \<Longrightarrow> filterE t xs = Inr (filter P xs)"
  by (induction xs) simp_all

lemma foldE_on:
  "(\<And>x acc. x \<in> set xs \<Longrightarrow> f x acc = Inr (h x acc)) \<Longrightarrow> foldE f xs acc = Inr (fold h xs acc)"
  by (induction xs arbitrary: acc) simp_all

lemma set_fold_insert_if:
  "set (fold (\<lambda>n fr. if Q n then List.insert n fr else fr) ns fr) = set fr \<union> {n \<in> set ns. Q n}"
  by (induction ns arbitrary: fr) auto

lemma distinct_fold_insert_if:
  "distinct fr \<Longrightarrow> distinct (fold (\<lambda>n fr. if Q n then List.insert n fr else fr) ns fr)"
  by (induction ns arbitrary: fr) auto

lemma Prim_step_carves:
  assumes inv: "Prim_inv s" and ne: "frontier s \<noteq> []"
  shows "\<exists>rc nb g' rng' fr'.
     Prim_step s = Inr (False, s\<lparr> p_grid := g', p_rng := rng', frontier := fr' \<rparr>)
     \<and> rc \<in> set (frontier s) \<and> nb \<in> set (neighbors_cells (p_grid s) rc)
     \<and> cell (p_grid s) nb \<noteq> wall (p_grid s)
     \<and> wf_grid g' \<and> same_shape (p_grid s) g'
     \<and> (\<forall>p. in_bounds (p_grid s) (fst p) (snd p) \<longrightarrow>
           cell g' p = (if p = rc \<or> p = nb \<or> p = midpoint rc nb then free (p_grid s)
                        else cell (p_grid s) p))
     \<and> distinct fr'
     \<and> set fr' = (set (frontier s) - {rc})
          \<union> {n \<in> set (neighbors_cells (p_grid s) rc). cell g' n = wall g'}"
proof -
  let ?g = "p_grid s"
  let ?sf = "sort (frontier s)"
  have wf: "wf_grid ?g" and dist: "distinct (frontier s)"
    using inv by (simp_all add: Prim_inv_def)
  have len: "0 < length ?sf" using ne by simp
  then have "(0::int) \<le> min 7 (int (length ?sf) - 1)" by simp
  from randint_range [OF this, of "p_rng s"]
  obtain idx rng1 where r1: "randint (p_rng s) 0 (min 7 (int (length ?sf) - 1)) = Inr (idx, rng1)"
    and idx: "0 \<le> idx" "idx \<le> min 7 (int (length ?sf) - 1)"
    by blast
  have idx_lt: "idx < int (length ?sf)" using idx len by linarith
  define rc where "rc = ?sf ! nat idx"
  have get1: "py_get ?sf idx = Inr rc"
    using idx(1) idx_lt by (simp add: py_get_inside rc_def)
  have "rc \<in> set ?sf"
    unfolding rc_def using idx(1) idx_lt by (intro nth_mem) linarith
  then have rc_in: "rc \<in> set (frontier s)" by simp
  have rem: "set_remove rc (frontier s) = Inr (remove1 rc (frontier s))"
    using rc_in by (simp add: set_remove_def)
  let ?fr1 = "remove1 rc (frontier s)"
  have fr1: "set ?fr1 = set (frontier s) - {rc}" "distinct ?fr1"
    using dist by simp_all
  have rc_props: "is_cell ?g rc" "cell ?g rc = wall ?g"
    "\<exists>n\<in>set (neighbors_cells ?g rc). cell ?g n \<noteq> wall ?g"
    using inv rc_in by (auto simp: Prim_inv_def)
  let ?ns = "neighbors_cells ?g rc"
  have nb_in: "in_bounds ?g (fst n) (snd n)" if "n \<in> set ?ns" for n
    using that by (simp add: neighbors_cells_iff)
  have "filterE (\<lambda>n. bindE (is_wall ?g n) (\<lambda>w. Inr (\<not> w))) ?ns
        = Inr (filter (\<lambda>n. cell ?g n \<noteq> wall ?g) ?ns)"
  proof (rule filterE_on)
    fix n assume "n \<in> set ?ns"
    then show "bindE (is_wall ?g n) (\<lambda>w. Inr (\<not> w)) = Inr (cell ?g n \<noteq> wall ?g)"
      using is_wall_inside [OF wf, of "fst n" "snd n"] nb_in by simp
  qed
  then have filt: "filterE (\<lambda>n. bindE (is_wall ?g n) (\<lambda>w. Inr (\<not> w))) ?ns
        = Inr (filter (\<lambda>n. cell ?g n \<noteq> wall ?g) ?ns)" .
  let ?cv = "filter (\<lambda>n. cell ?g n \<noteq> wall ?g) ?ns"
  have cv_ne: "?cv \<noteq> []"
    using rc_props(3) by (auto simp: filter_empty_conv)
  let ?cn = "sort ?cv"
  have len2: "0 < length ?cn" using cv_ne by simp
  then have "(0::int) \<le> int (length ?cn) - 1" by simp
  from randint_range [OF this, of rng1]
  obtain idx2 rng2 where r2: "randint rng1 0 (int (length ?cn) - 1) = Inr (idx2, rng2)"
    and idx2: "0 \<le> idx2" "idx2 \<le> int (length ?cn) - 1"
    by blast
  define nb where "nb = ?cn ! nat idx2"
  have get2: "py_get ?cn idx2 = Inr nb"
    using idx2 by (simp add: py_get_inside nb_def)
  have "nb \<in> set ?cn"
    unfolding nb_def using idx2 by (intro nth_mem) linarith
  then have nb_props: "nb \<in> set ?ns" "cell ?g nb \<noteq> wall ?g" by simp_all
  have adj: "cell_adj rc nb" and nb_b: "in_bounds ?g (fst nb) (snd nb)"
    using nb_props(1) by (simp_all add: neighbors_cells_iff)
  have rc_b: "in_bounds ?g (fst rc) (snd rc)"
    using rc_props(1) by (simp add: is_cell_def)
  from carve_passage_inside [OF wf rc_b nb_b adj]
  obtain g' where cp: "carve_passage ?g rc nb = Inr g'" and wf': "wf_grid g'"
    and sh: "same_shape ?g g'"
    and cells: "\<forall>p. in_bounds ?g (fst p) (snd p) \<longrightarrow>
           cell g' p = (if p = rc \<or> p = nb \<or> p = midpoint rc nb then free ?g else cell ?g p)"
    by blast
  have ns': "neighbors_cells g' rc = ?ns"
    using sh by (rule same_shape_neighbors_cells)
  let ?h = "\<lambda>n fr. if cell g' n = wall g' then List.insert n fr else fr"
  have fe: "foldE (\<lambda>n fr. if in_bounds g' (fst n) (snd n)
                 then bindE (is_wall g' n) (\<lambda>w. Inr (if w then List.insert n fr else fr))
                 else Inr fr) ?ns ?fr1 = Inr (fold ?h ?ns ?fr1)"
  proof (rule foldE_on)
    fix n acc assume "n \<in> set ?ns"
    then have "in_bounds g' (fst n) (snd n)"
      using nb_in sh by (simp add: same_shape_in_bounds)
    then show "(if in_bounds g' (fst n) (snd n)
                 then bindE (is_wall g' n) (\<lambda>w. Inr (if w then List.insert n acc else acc))
                 else Inr acc) = Inr (?h n acc)"
      using is_wall_inside [OF wf', of "fst n" "snd n"] by simp
  qed
  let ?fr2 = "fold ?h ?ns ?fr1"
  have step: "Prim_step s = Inr (False, s\<lparr> p_grid := g', p_rng := rng2, frontier := ?fr2 \<rparr>)"
    using ne r1 get1 rem filt cv_ne r2 get2 cp fe ns'
    by (simp add: Prim_step_def Let_def)
  have "set ?fr2 = (set (frontier s) - {rc}) \<union> {n \<in> set ?ns. cell g' n = wall g'}"
    using fr1(1) by (simp add: set_fold_insert_if)
  moreover have "distinct ?fr2"
    using fr1(2) by (rule distinct_fold_insert_if)
  ultimately show ?thesis
    using step rc_in nb_props wf' sh cells by blast
qed

lemma same_shape_is_cell: "same_shape g g' \<Longrightarrow> is_cell g' p = is_cell g p"
  by (simp add: is_cell_def same_shape_in_bounds)

lemma Prim_step_done: "frontier s = [] \<Longrightarrow> Prim_step s = Inr (True, s)"
  by (simp add: Prim_step_def)

lemma Prim_step_inv:
  assumes inv: "Prim_inv s"
  shows "\<exists>d s'. Prim_step s = Inr (d, s') \<and> Prim_inv s' \<and> (d \<longleftrightarrow> frontier s = [])
     \<and> same_shape (p_grid s) (p_grid s')"
proof (cases "frontier s = []")
  case True
  then show ?thesis using inv by (auto simp: Prim_step_done)
next
  case False
  let ?g = "p_grid s"
  from Prim_step_carves [OF inv False]
  obtain rc nb g' rng' fr' where
    step: "Prim_step s = Inr (False, s\<lparr> p_grid := g', p_rng := rng', frontier := fr' \<rparr>)"
    and rc_in: "rc \<in> set (frontier s)" and nb_in: "nb \<in> set (neighbors_cells ?g rc)"
    and nb_c: "cell ?g nb \<noteq> wall ?g" and wf': "wf_grid g'" and sh: "same_shape ?g g'"
    and cells0: "\<forall>p. in_bounds ?g (fst p) (snd p) \<longrightarrow>
           cell g' p = (if p = rc \<or> p = nb \<or> p = midpoint rc nb then free ?g else cell ?g p)"
    and d': "distinct fr'"
    and fr': "set fr' = (set (frontier s) - {rc})
          \<union> {n \<in> set (neighbors_cells ?g rc). cell g' n = wall g'}"
    by blast
  have cells: "cell g' p = (if p = rc \<or> p = nb \<or> p = midpoint rc nb then free ?g else cell ?g p)"
    if "in_bounds ?g (fst p) (snd p)" for p
    using cells0 that by blast
  have wf: "wf_grid ?g" using inv by (simp add: Prim_inv_def)
  have wl: "wall g' = wall ?g" "free ?g \<noteq> wall ?g"
    using sh wf by (auto simp: same_shape_def wf_grid_def)
  have F: "\<And>p. p \<in> set (frontier s) \<Longrightarrow> is_cell ?g p \<and> cell ?g p = wall ?g
            \<and> (\<exists>n\<in>set (neighbors_cells ?g p). cell ?g n \<noteq> wall ?g)"
    and G: "\<And>p. is_cell ?g p \<Longrightarrow> cell ?g p = wall ?g
            \<Longrightarrow> \<exists>n\<in>set (neighbors_cells ?g p). cell ?g n \<noteq> wall ?g \<Longrightarrow> p \<in> set (frontier s)"
    using inv by (auto simp: Prim_inv_def)
  have rc_cell: "is_cell ?g rc" "cell ?g rc = wall ?g" using F [OF rc_in] by simp_all
  have adj: "cell_adj rc nb" "in_bounds ?g (fst nb) (snd nb)"
    using nb_in by (simp_all add: neighbors_cells_iff)
  have mid_nc: "\<not> is_cell ?g (midpoint rc nb)"
    using midpoint_not_cell [OF adj(1)] rc_cell(1) by (simp add: is_cell_def)
  have mono: "cell g' p \<noteq> wall g'" if "in_bounds ?g (fst p) (snd p)" "cell ?g p \<noteq> wall ?g" for p
    using cells [OF that(1)] that(2) wl by auto
  have keep: "cell g' p = cell ?g p" if "is_cell ?g p" "p \<noteq> rc" "cell ?g p = wall ?g" for p
  proof -
    have "p \<noteq> nb" using that(3) nb_c by auto
    moreover have "p \<noteq> midpoint rc nb" using that(1) mid_nc by auto
    ultimately show ?thesis using cells [of p] that(1,2) by (simp add: is_cell_def)
  qed
  have rc': "cell g' rc \<noteq> wall g'"
    using cells [of rc] rc_cell(1) wl by (simp add: is_cell_def)
  have A: "is_cell g' p \<and> cell g' p = wall g'
            \<and> (\<exists>n\<in>set (neighbors_cells g' p). cell g' n \<noteq> wall g')" if "p \<in> set fr'" for p
  proof -
    from that fr' consider "p \<in> set (frontier s)" "p \<noteq> rc"
      | "p \<in> set (neighbors_cells ?g rc)" "cell g' p = wall g'" by auto
    then show ?thesis
    proof cases
      case 1
      from F [OF 1(1)] obtain n where n: "is_cell ?g p" "cell ?g p = wall ?g"
        "n \<in> set (neighbors_cells ?g p)" "cell ?g n \<noteq> wall ?g" by blast
      have "cell g' n \<noteq> wall g'"
        using mono n(3,4) by (simp add: neighbors_cells_iff)
      then show ?thesis
        using n keep [OF n(1) 1(2) n(2)] wl sh
        by (auto simp: same_shape_is_cell same_shape_neighbors_cells)
    next
      case 2
      have "cell_adj rc p" "in_bounds ?g (fst p) (snd p)"
        using 2(1) by (simp_all add: neighbors_cells_iff)
      then have "is_cell ?g p" "rc \<in> set (neighbors_cells ?g p)"
        using cell_adj_cell [of rc p] rc_cell(1) cell_adj_sym [of rc p]
        by (auto simp: is_cell_def neighbors_cells_iff)
      then show ?thesis
        using 2(2) rc' sh by (auto simp: same_shape_is_cell same_shape_neighbors_cells)
    qed
  qed
  have B: "p \<in> set fr'" if p: "is_cell g' p" "cell g' p = wall g'"
      "n \<in> set (neighbors_cells g' p)" "cell g' n \<noteq> wall g'" for p n
  proof -
    have pc: "is_cell ?g p" and nn: "n \<in> set (neighbors_cells ?g p)"
      using p(1,3) sh by (simp_all add: same_shape_is_cell same_shape_neighbors_cells)
    have pb: "in_bounds ?g (fst p) (snd p)" using pc by (simp add: is_cell_def)
    have p_old: "cell ?g p = wall ?g" "p \<noteq> rc"
      using cells [OF pb] p(2) wl rc' by (auto split: if_splits)
    have n_adj: "cell_adj p n" "in_bounds ?g (fst n) (snd n)"
      using nn by (simp_all add: neighbors_cells_iff)
    have n_cell: "is_cell ?g n"
      using cell_adj_cell [OF n_adj(1)] pc n_adj(2) by (simp add: is_cell_def)
    show ?thesis
    proof (cases "n = rc")
      case True
      then have "p \<in> set (neighbors_cells ?g rc)"
        using n_adj cell_adj_sym pb by (auto simp: neighbors_cells_iff)
      then show ?thesis using fr' p(2) by simp
    next
      case False
      have "n \<noteq> midpoint rc nb" using n_cell mid_nc by auto
      then have "cell ?g n \<noteq> wall ?g"
        using cells [OF n_adj(2)] p(4) False wl nb_c by (auto split: if_splits)
      then have "p \<in> set (frontier s)" using G [OF pc p_old(1)] nn by blast
      then show ?thesis using fr' p_old(2) by simp
    qed
  qed
  have "Prim_inv (s\<lparr> p_grid := g', p_rng := rng', frontier := fr' \<rparr>)"
    unfolding Prim_inv_def using wf' d' A B by auto
  then show ?thesis using step False sh by auto
qed

lemma Grid_init_fresh:
  assumes "Grid_init R C = Inr g"
  shows "wf_grid g" "rows g = R" "cols g = C" "start g = (1, 1)" "goal g = (R - 2, C - 2)"
    "odd R" "odd C" "in_bounds g (fst p) (snd p) \<Longrightarrow> cell g p = wall g"
proof -
  have g: "g = \<lparr> rows = R, cols = C, wall = 1, free = 0,
                 grid = replicate (nat R) (replicate (nat C) 1),
                 start = (1, 1), goal = (R - 2, C - 2), dirty = {} \<rparr>"
    and odd: "R mod 2 = 1" "C mod 2 = 1"
    using assms by (auto simp: Grid_init_def split: if_splits)
  show "wf_grid g" using assms by (rule Grid_init_wf)
  show "rows g = R" "cols g = C" "start g = (1, 1)" "goal g = (R - 2, C - 2)"
    using g by simp_all
  show "odd R" "odd C" using odd by presburger+
  show "cell g p = wall g" if "in_bounds g (fst p) (snd p)"
    using that g by (simp add: cell_def in_bounds_def)
qed

lemma set_fold_insert: "set (fold List.insert xs ys) = set xs \<union> set ys"
  by (induction xs arbitrary: ys) auto

lemma distinct_fold_insert: "distinct ys \<Longrightarrow> distinct (fold List.insert xs ys)"
  by (induction xs arbitrary: ys) auto

lemma PrimGenerator_init_inv:
  assumes g: "Grid_init R C = Inr g" and big: "3 \<le> R" "3 \<le> C"
  shows "\<exists>s0. PrimGenerator_init g rng = Inr s0 \<and> Prim_inv s0 \<and> same_shape g (p_grid s0)
     \<and> p_rng s0 = rng
     \<and> (\<forall>p. in_bounds g (fst p) (snd p) \<longrightarrow>
           cell (p_grid s0) p = (if p = (1, 1) then free g else wall g))"
proof -
  note f = Grid_init_fresh [OF g]
  have b: "in_bounds g 1 1" using big f(2,3) by (simp add: in_bounds_def)
  from set_free_inside [OF f(1) b]
  obtain g1 where 1: "set_free g (1, 1) = Inr g1" "wf_grid g1" "same_shape g g1"
    and c0: "\<forall>p. in_bounds g (fst p) (snd p) \<longrightarrow> cell g1 p = (if p = (1, 1) then free g else cell g p)"
    by blast
  have c1: "cell g1 p = (if p = (1, 1) then free g else wall g)"
    if "in_bounds g (fst p) (snd p)" for p
  proof -
    from c0 that have "cell g1 p = (if p = (1, 1) then free g else cell g p)" by blast
    then show ?thesis using f(8) [OF that] by simp
  qed
  let ?s0 = "\<lparr> p_grid = g1, p_rng = rng, frontier = fold List.insert (neighbors_cells g1 (start g)) [] \<rparr>"
  have init: "PrimGenerator_init g rng = Inr ?s0"
    using 1(1) f(4) by (simp add: PrimGenerator_init_def carve_cell_def)
  have wl: "wall g1 = wall g" "free g \<noteq> wall g"
    using 1(3) f(1) by (auto simp: same_shape_def wf_grid_def)
  have fr: "set (frontier ?s0) = set (neighbors_cells g1 (1, 1))" "distinct (frontier ?s0)"
    using f(4) by (simp_all add: set_fold_insert distinct_fold_insert)
  have inb: "in_bounds g1 r c = in_bounds g r c" for r c
    using 1(3) by (simp add: same_shape_in_bounds)
  have A: "is_cell g1 p \<and> cell g1 p = wall g1
      \<and> (\<exists>n\<in>set (neighbors_cells g1 p). cell g1 n \<noteq> wall g1)"
    if "p \<in> set (neighbors_cells g1 (1, 1))" for p
  proof -
    have a: "cell_adj (1, 1) p" "in_bounds g (fst p) (snd p)"
      using that by (simp_all add: neighbors_cells_iff inb)
    then have "p \<noteq> (1, 1)" by (auto simp: cell_adj_def)
    then have "cell g1 p = wall g1" using c1 [OF a(2)] wl by simp
    moreover have "is_cell g1 p"
      using cell_adj_cell [OF a(1)] a(2) by (simp add: is_cell_def inb)
    moreover have "(1, 1) \<in> set (neighbors_cells g1 p)" "cell g1 (1, 1) \<noteq> wall g1"
      using cell_adj_sym [OF a(1)] b c1 [OF _] wl by (auto simp: neighbors_cells_iff inb)
    ultimately show ?thesis by blast
  qed
  have B: "p \<in> set (neighbors_cells g1 (1, 1))"
    if "is_cell g1 p" "n \<in> set (neighbors_cells g1 p)" "cell g1 n \<noteq> wall g1" for p n
  proof -
    have n: "cell_adj p n" "in_bounds g (fst n) (snd n)"
      using that(2) by (simp_all add: neighbors_cells_iff inb)
    then have "n = (1, 1)" using c1 [OF n(2)] that(3) wl by (auto split: if_splits)
    then show ?thesis
      using cell_adj_sym [OF n(1)] that(1) by (simp add: neighbors_cells_iff is_cell_def)
  qed
  have "Prim_inv ?s0"
    unfolding Prim_inv_def using 1(2) fr A B by auto
  then show ?thesis using init 1(3) c1 by auto
qed

lemma Prim_steps_inv:
  "Prim_inv s \<Longrightarrow> \<exists>ds s'. Prim_steps n s = Inr (ds, s') \<and> Prim_inv s' \<and> length ds = n
     \<and> same_shape (p_grid s) (p_grid s')"
proof (induction n arbitrary: s)
  case 0
  then show ?case by simp
next
  case (Suc n)
  from Prim_step_inv [OF Suc.prems]
  obtain d s1 where 1: "Prim_step s = Inr (d, s1)" "Prim_inv s1" "same_shape (p_grid s) (p_grid s1)"
    by blast
  from Suc.IH [OF 1(2)]
  obtain ds s2 where 2: "Prim_steps n s1 = Inr (ds, s2)" "Prim_inv s2" "length ds = n"
    "same_shape (p_grid s1) (p_grid s2)"
    by blast
  show ?case using 1 2 same_shape_trans by (auto simp: )
qed

lemma odd_half_index:
  fixes r R :: int
  assumes "0 \<le> r" "r < R" "odd r"
  shows "r = 2 * int (nat (r div 2)) + 1" "nat (r div 2) < nat (R div 2)"
proof -
  have h: "0 \<le> r div 2" using assms(1) by simp
  have "r = 2 * (r div 2) + 1" using assms(3) by presburger
  then show "r = 2 * int (nat (r div 2)) + 1" using h by simp
  have "r div 2 < R div 2" using assms by presburger
  then show "nat (r div 2) < nat (R div 2)" using h by simp
qed

lemma cells_subset:
  "{p. is_cell g p} \<subseteq> (\<lambda>(i, j). (2 * int i + 1, 2 * int j + 1))
      ` ({0..<nat (rows g div 2)} \<times> {0..<nat (cols g div 2)})"
proof
  fix p assume "p \<in> {p. is_cell g p}"
  then obtain r c where p: "p = (r, c)" and b: "0 \<le> r" "r < rows g" "0 \<le> c" "c < cols g"
    "odd r" "odd c"
    by (cases p) (auto simp: is_cell_def in_bounds_def)
  have r: "r = 2 * int (nat (r div 2)) + 1" "nat (r div 2) < nat (rows g div 2)"
    using b(1,2,5) by (rule odd_half_index)+
  have c: "c = 2 * int (nat (c div 2)) + 1" "nat (c div 2) < nat (cols g div 2)"
    using b(3,4,6) by (rule odd_half_index)+
  have "(nat (r div 2), nat (c div 2)) \<in> {0..<nat (rows g div 2)} \<times> {0..<nat (cols g div 2)}"
    using r(2) c(2) by simp
  moreover have "p = (\<lambda>(i, j). (2 * int i + 1, 2 * int j + 1)) (nat (r div 2), nat (c div 2))"
    using p r(1) c(1) by simp
  ultimately show "p \<in> (\<lambda>(i, j). (2 * int i + 1, 2 * int j + 1))
      ` ({0..<nat (rows g div 2)} \<times> {0..<nat (cols g div 2)})"
    by (rule rev_image_eqI)
qed

lemma finite_cells: "finite {p. is_cell g p}"
  by (rule finite_subset [OF cells_subset]) simp

lemma card_cells: "card {p. is_cell g p} \<le> nat (rows g div 2) * nat (cols g div 2)"
proof -
  have "card {p. is_cell g p} \<le> card ((\<lambda>(i, j). (2 * int i + 1, 2 * int j + 1))
      ` ({0..<nat (rows g div 2)} \<times> {0..<nat (cols g div 2)}))"
    by (rule card_mono [OF _ cells_subset]) simp
  also have "\<dots> \<le> card ({0..<nat (rows g div 2)} \<times> {0..<nat (cols g div 2)})"
    by (rule card_image_le) simp
  finally show ?thesis by simp
qed

lemma finite_carved_cells: "finite (carved_cells g)"
  by (rule finite_subset [OF _ finite_cells [of g]]) (auto simp: carved_cells_def)

lemma card_carved_cells: "card (carved_cells g) \<le> nat (rows g div 2) * nat (cols g div 2)"
proof -
  have "card (carved_cells g) \<le> card {p. is_cell g p}"
    by (rule card_mono [OF finite_cells]) (auto simp: carved_cells_def)
  then show ?thesis using card_cells [of g] by linarith
qed

lemma Prim_step_count:
  assumes inv: "Prim_inv s" and st: "Prim_step s = Inr (False, s')"
  shows "card (carved_cells (p_grid s')) = Suc (card (carved_cells (p_grid s)))"
proof -
  let ?g = "p_grid s"
  have ne: "frontier s \<noteq> []"
    using st by (auto simp: Prim_step_done)
  from Prim_step_carves [OF inv ne] st
  obtain rc nb where rc_in: "rc \<in> set (frontier s)"
    and nb_in: "nb \<in> set (neighbors_cells ?g rc)"
    and nb_c: "cell ?g nb \<noteq> wall ?g" and sh: "same_shape ?g (p_grid s')"
    and cells0: "\<forall>p. in_bounds ?g (fst p) (snd p) \<longrightarrow>
           cell (p_grid s') p = (if p = rc \<or> p = nb \<or> p = midpoint rc nb then free ?g
                        else cell ?g p)"
    by auto
  have cells: "cell (p_grid s') p = (if p = rc \<or> p = nb \<or> p = midpoint rc nb then free ?g
                        else cell ?g p)" if "in_bounds ?g (fst p) (snd p)" for p
    using cells0 that by blast
  have wf: "wf_grid ?g" using inv by (simp add: Prim_inv_def)
  have wl: "wall (p_grid s') = wall ?g" "free ?g \<noteq> wall ?g"
    using sh wf by (auto simp: same_shape_def wf_grid_def)
  have rc_cell: "is_cell ?g rc" "cell ?g rc = wall ?g"
    using inv rc_in by (auto simp: Prim_inv_def)
  have adj: "cell_adj rc nb" using nb_in by (simp add: neighbors_cells_iff)
  have mid_nc: "\<not> is_cell ?g (midpoint rc nb)"
    using midpoint_not_cell [OF adj] rc_cell(1) by (simp add: is_cell_def)
  have "carved_cells (p_grid s') = insert rc (carved_cells ?g)"
  proof (rule set_eqI)
    fix p
    show "p \<in> carved_cells (p_grid s') \<longleftrightarrow> p \<in> insert rc (carved_cells ?g)"
    proof (cases "is_cell ?g p")
      case True
      then have "in_bounds ?g (fst p) (snd p)" "p \<noteq> midpoint rc nb"
        using mid_nc by (auto simp: is_cell_def)
      then show ?thesis
        using cells [of p] True wl nb_c sh
        by (auto simp: carved_cells_def same_shape_is_cell)
    next
      case False
      then show ?thesis
        using sh rc_cell(1) by (auto simp: carved_cells_def same_shape_is_cell)
    qed
  qed
  moreover have "rc \<notin> carved_cells ?g"
    using rc_cell(2) by (simp add: carved_cells_def)
  ultimately show ?thesis
    using finite_carved_cells [of ?g] by simp
qed

lemma Prim_steps_count:
  "Prim_inv s \<Longrightarrow> Prim_steps n s = Inr (ds, s') \<Longrightarrow> True \<notin> set ds
   \<Longrightarrow> card (carved_cells (p_grid s')) = card (carved_cells (p_grid s)) + n"
proof (induction n arbitrary: s ds)
  case 0
  then show ?case by simp
next
  case (Suc n)
  from Suc.prems(2) obtain d s1 ds' where 1: "Prim_step s = Inr (d, s1)"
    and 2: "Prim_steps n s1 = Inr (ds', s')" and ds: "ds = d # ds'"
    by (auto simp: bindE_eq_Inr)
  have d: "\<not> d" "True \<notin> set ds'" using Suc.prems(3) ds by auto
  have inv1: "Prim_inv s1"
    using Prim_step_inv [OF Suc.prems(1)] 1 by auto
  have "card (carved_cells (p_grid s1)) = Suc (card (carved_cells (p_grid s)))"
    using Prim_step_count [OF Suc.prems(1)] 1 d(1) by simp
  then show ?case using Suc.IH [OF inv1 2 d(2)] by simp
qed

lemma Prim_terminates_within:
  assumes inv: "Prim_inv s" and c: "0 < card (carved_cells (p_grid s))"
    and n: "n = nat (rows (p_grid s) div 2) * nat (cols (p_grid s) div 2)"
  shows "\<exists>ds s'. Prim_steps n s = Inr (ds, s') \<and> True \<in> set ds"
proof -
  from Prim_steps_inv [OF inv, of n]
  obtain ds s' where st: "Prim_steps n s = Inr (ds, s')"
    and sh: "same_shape (p_grid s) (p_grid s')" by blast
  have "True \<in> set ds"
  proof (rule ccontr)
    assume "True \<notin> set ds"
    from Prim_steps_count [OF inv st this]
    have "card (carved_cells (p_grid s')) > n" using c by simp
    moreover have "card (carved_cells (p_grid s')) \<le> n"
      using card_carved_cells [of "p_grid s'"] sh n by (simp add: same_shape_def)
    ultimately show False by simp
  qed
  then show ?thesis using st by blast
qed

section \<open>C8: the frontier of the Prim generator\<close>

text \<open>
  C8: build a grid with \<open>Grid(R, C)\<close>, build the Prim generator over it (whatever
  the random source), and call \<open>step()\<close> any number \<open>n\<close> of times.  None of the calls
  raises, and in the state reached every cell of the frontier is a wall (not yet
  carved) and has, among its neighbours at cell distance 2, a carved one.
\<close>

theorem C8_prim_frontier:
  assumes "Grid_init R C = Inr g" and "PrimGenerator_init g rng = Inr s0"
  shows "\<exists>ds s. Prim_steps n s0 = Inr (ds, s)
     \<and> (\<forall>p\<in>set (frontier s). is_wall (p_grid s) p = Inr True
           \<and> (\<exists>q\<in>set (neighbors_cells (p_grid s) p). is_wall (p_grid s) q = Inr False))"
proof -
  note f = Grid_init_fresh [OF assms(1)]
  have big: "3 \<le> R" "3 \<le> C"
  proof -
    have "in_bounds g 1 1"
    proof (rule ccontr)
      assume nb: "\<not> in_bounds g 1 1"
      have "py_get2 (grid g) 1 1 = Inl IndexError"
        using nb f(1) unfolding wf_grid_def in_bounds_def py_get2_def py_get_def
        by (auto simp: list_all_length bindE_def split: sum.splits)
      then show False
        using assms(2) f(4)
        by (simp add: PrimGenerator_init_def carve_cell_def set_free_def)
    qed
    then have "1 < R" "1 < C" using f(2,3) by (simp_all add: in_bounds_def)
    then show "3 \<le> R" "3 \<le> C" using f(6,7) by presburger+
  qed
  from PrimGenerator_init_inv [OF assms(1) big, of rng] assms(2)
  have inv0: "Prim_inv s0" by auto
  from Prim_steps_inv [OF inv0, of n]
  obtain ds s where st: "Prim_steps n s0 = Inr (ds, s)" and inv: "Prim_inv s" by blast
  have wf: "wf_grid (p_grid s)" using inv by (simp add: Prim_inv_def)
  have "is_wall (p_grid s) p = Inr True
           \<and> (\<exists>q\<in>set (neighbors_cells (p_grid s) p). is_wall (p_grid s) q = Inr False)"
    if "p \<in> set (frontier s)" for p
  proof -
    from inv that obtain q where pq: "is_cell (p_grid s) p" "cell (p_grid s) p = wall (p_grid s)"
      "q \<in> set (neighbors_cells (p_grid s) p)" "cell (p_grid s) q \<noteq> wall (p_grid s)"
      by (auto simp: Prim_inv_def)
    have "in_bounds (p_grid s) (fst p) (snd p)" "in_bounds (p_grid s) (fst q) (snd q)"
      using pq(1,3) by (simp_all add: is_cell_def neighbors_cells_iff)
    then have "is_wall (p_grid s) p = Inr True" "is_wall (p_grid s) q = Inr False"
      using is_wall_inside [OF wf, of "fst p" "snd p"] is_wall_inside [OF wf, of "fst q" "snd q"] pq
      by simp_all
    then show ?thesis using pq(3) by blast
  qed
  then show ?thesis using st by blast
qed

theorem C8_prim_frontier_witness:
  "(case Grid_init 5 5 of Inl e \<Rightarrow> False
    | Inr g \<Rightarrow>
        (case PrimGenerator_init g (SeededRNG_init (\<lambda>sd n. 0) (Some 42)) of Inl e \<Rightarrow> False
         | Inr s0 \<Rightarrow> frontier s0 \<noteq> []
             \<and> (\<exists>ds s. Prim_steps 3 s0 = Inr (ds, s)
                   \<and> (\<forall>p\<in>set (frontier s). is_wall (p_grid s) p = Inr True
                         \<and> (\<exists>q\<in>set (neighbors_cells (p_grid s) p).
                               is_wall (p_grid s) q = Inr False)))))"
proof -
  obtain g where g: "Grid_init 5 5 = Inr g"
    by (simp add: Grid_init_def)
  obtain s0 where s0: "PrimGenerator_init g (SeededRNG_init (\<lambda>sd n. 0) (Some 42)) = Inr s0"
    using PrimGenerator_init_inv [OF g] by fastforce
  have "frontier s0 \<noteq> []"
    using g s0
    by (auto simp: Grid_init_def PrimGenerator_init_def carve_cell_def set_free_def py_get2_def
        py_set2_def py_get_def py_set_def neighbors_cells_def in_bounds_def)
  then show ?thesis
    using C8_prim_frontier [OF g s0, of 3] g s0 by simp
qed

section \<open>C9: the Prim generator is done within rows * cols steps\<close>

text \<open>
  C9: on the 11 by 11 grid (5 by 5 logical cells, start (1, 1), goal (9, 9)) with the
  generator seeded with 42, whatever sequence the library's generator yields for
  that seed, the first 25 calls of \<open>step()\<close> raise nothing and one of them returns
  true (done).
\<close>

theorem C9_prim_done_within_25:
  "\<exists>g s0 ds s. Grid_init 11 11 = Inr g \<and> start g = (1, 1) \<and> goal g = (9, 9)
     \<and> PrimGenerator_init g (SeededRNG_init library (Some 42)) = Inr s0
     \<and> Prim_steps 25 s0 = Inr (ds, s) \<and> True \<in> set ds"
proof -
  obtain g where g: "Grid_init 11 11 = Inr g"
    by (simp add: Grid_init_def)
  note f = Grid_init_fresh [OF g]
  from PrimGenerator_init_inv [OF g, of "SeededRNG_init library (Some 42)"]
  obtain s0 where s0: "PrimGenerator_init g (SeededRNG_init library (Some 42)) = Inr s0"
    and inv: "Prim_inv s0" and sh: "same_shape g (p_grid s0)"
    and c: "\<forall>p. in_bounds g (fst p) (snd p) \<longrightarrow>
           cell (p_grid s0) p = (if p = (1, 1) then free g else wall g)"
    by auto
  have dims: "rows (p_grid s0) = 11" "cols (p_grid s0) = 11"
    using sh f(2,3) by (simp_all add: same_shape_def)
  have "cell (p_grid s0) (1, 1) = free g"
    using c [rule_format, of "(1, 1)"] f(2,3) by (simp add: in_bounds_def)
  moreover have "free g \<noteq> wall (p_grid s0)"
    using sh f(1) by (auto simp: same_shape_def wf_grid_def)
  ultimately have "(1, 1) \<in> carved_cells (p_grid s0)"
    using dims by (simp add: carved_cells_def is_cell_def in_bounds_def)
  then have "carved_cells (p_grid s0) \<noteq> {}" by blast
  then have pos: "0 < card (carved_cells (p_grid s0))"
    using finite_carved_cells [of "p_grid s0"] by (simp add: card_gt_0_iff)
  have "25 = nat (rows (p_grid s0) div 2) * nat (cols (p_grid s0) div 2)"
    using dims by simp
  from Prim_terminates_within [OF inv pos this]
  obtain ds s where "Prim_steps 25 s0 = Inr (ds, s)" "True \<in> set ds" by blast
  then show ?thesis using g f(4,5) s0 by auto
qed

theorem C9_prim_done_within_25_witness:
  "\<exists>g s0 ds s. Grid_init 11 11 = Inr g \<and> start g = (1, 1) \<and> goal g = (9, 9)
     \<and> PrimGenerator_init g (SeededRNG_init (\<lambda>sd n. n * 7 + 3) (Some 42)) = Inr s0
     \<and> Prim_steps 25 s0 = Inr (ds, s) \<and> True \<in> set ds"
  using C9_prim_done_within_25 [of "\<lambda>sd n. n * 7 + 3"] by simp

section \<open>The searches end, with a path exactly when there is one\<close>

lemma finite_inb: "finite {p. in_bounds g (fst p) (snd p)}"
proof -
  have "{p. in_bounds g (fst p) (snd p)} \<subseteq> {0..<rows g} \<times> {0..<cols g}"
    by (auto simp: in_bounds_def)
  then show ?thesis by (rule finite_subset) simp
qed

lemma finite_universe [simp]: "finite (universe g st)"
  by (simp add: universe_def finite_inb)

lemma nbr_irrefl: "nbr g p q \<Longrightarrow> p \<noteq> q"
  by (cases p) (auto simp: nbr_def)

lemma nbr_universe: "nbr g p q \<Longrightarrow> q \<in> universe g st"
  by (simp add: nbr_def universe_def)

lemma AI_core_finite: "AI_core g st gl a \<Longrightarrow> finite (aD a)"
  unfolding AI_core_def by (meson finite_subset finite_universe)

lemma AI_coreD:
  assumes "AI_core g st gl a"
  shows "st \<in> aD a" "aD a \<subseteq> universe g st" "aR a st = 0"
    "\<And>v. v \<in> aD a \<Longrightarrow> reachable g st v" "\<And>v. v \<in> aD a \<Longrightarrow> aR a v < card (aD a)"
    "\<And>v p. aPar a v = Some p \<Longrightarrow> v \<in> aD a \<and> v \<noteq> st \<and> p \<in> aD a \<and> nbr g p v \<and> aR a p < aR a v"
    "\<And>v. v \<in> aD a \<Longrightarrow> v \<noteq> st \<Longrightarrow> aPar a v \<noteq> None"
    "\<And>e. e \<in># aQ a \<Longrightarrow> snd e \<in> aD a"
    "\<And>p. aPath a = Some p \<Longrightarrow> aDone a \<and> good_path g st gl p"
    "aDone a \<Longrightarrow> aPath a = None \<Longrightarrow> \<not> reachable g st gl"
  using assms unfolding AI_core_def by blast+

lemma reachable_step: "reachable g st u \<Longrightarrow> nbr g u v \<Longrightarrow> reachable g st v"
  unfolding reachable_def by (rule rtranclp.rtrancl_into_rtrancl)

lemma potential_relax:
  assumes fin: "finite U" and v: "v \<in> U" and lt: "r < (if v \<in> D then R v else card U)"
  shows "(\<Sum>x\<in>U. if x \<in> insert v D then (R(v := r)) x else card U)
       < (\<Sum>x\<in>U. if x \<in> D then R x else card U)"
proof -
  let ?f = "\<lambda>x. if x \<in> D then R x else card U"
  let ?f' = "\<lambda>x. if x \<in> insert v D then (R(v := r)) x else card U"
  have a: "sum ?f U = ?f v + sum ?f (U - {v})"
    using fin v by (rule sum.remove)
  have b: "sum ?f' U = ?f' v + sum ?f' (U - {v})"
    using fin v by (rule sum.remove)
  have "sum ?f' (U - {v}) = sum ?f (U - {v})"
    by (rule sum.cong) auto
  moreover have "?f' v < ?f v" using lt by simp
  ultimately show ?thesis using a b by linarith
qed

lemma AIx_relax:
  assumes x: "AIx g st gl u a" and n: "nbr g u v" and r: "aR a u < r"
    and old: "v \<in> aD a \<Longrightarrow> r < aR a v" and new: "v \<notin> aD a \<Longrightarrow> r \<le> card (aD a)"
  shows "AIx g st gl u (relax u r v a)" "load g st (relax u r v a) < load g st a"
proof -
  have c: "AI_core g st gl a" and nd: "\<not> aDone a" and u: "u \<in> aD a" "u \<noteq> gl"
    and se: "\<And>w. w \<in> aD a \<Longrightarrow> w \<noteq> u \<Longrightarrow> settled g gl a w"
    using x by (auto simp: AIx_def)
  note d = AI_coreD [OF c]
  have fin: "finite (aD a)" using c by (rule AI_core_finite)
  have uv: "u \<noteq> v" using n by (rule nbr_irrefl)
  have vU: "v \<in> universe g st" using n by (rule nbr_universe)
  have vst: "v \<noteq> st"
  proof
    assume "v = st"
    then have "r < aR a st" using old d(1) by simp
    then show False using d(3) by simp
  qed
  let ?a = "relax u r v a"
  have D': "aD ?a = insert v (aD a)" and R': "aR ?a = (aR a)(v := r)"
    and P': "aPar ?a = (aPar a)(v \<mapsto> u)" and Q': "aQ ?a = add_mset (r, v) (aQ a)"
    and O': "aDone ?a = aDone a" "aPath ?a = aPath a"
    by (simp_all add: relax_def)
  have card': "card (aD a) \<le> card (insert v (aD a))"
    using fin by (simp add: card_insert_le)
  have rv: "r < card (insert v (aD a))"
  proof (cases "v \<in> aD a")
    case True
    then show ?thesis using old d(5) [OF True] by (simp add: insert_absorb)
  next
    case False
    then show ?thesis using new fin by simp
  qed
  have path_none: "aPath a = None"
    using d(9) nd by (cases "aPath a") auto
  have core: "AI_core g st gl ?a"
    unfolding AI_core_def D' R' P' Q' O'
  proof (intro conjI ballI allI impI)
    show "st \<in> insert v (aD a)" using d(1) by simp
    show "insert v (aD a) \<subseteq> universe g st" using d(2) vU by simp
    show "((aR a)(v := r)) st = 0" using d(3) vst by simp
  next
    fix w assume w: "w \<in> insert v (aD a)"
    show "reachable g st w"
      using w d(4) [of w] reachable_step [OF d(4) [OF u(1)] n] by blast
    show "((aR a)(v := r)) w < card (insert v (aD a))"
      using w rv d(5) [of w] card' by (cases "w = v") simp_all
  next
    fix w p assume wp: "((aPar a)(v \<mapsto> u)) w = Some p"
    show "w \<in> insert v (aD a)" using wp d(6) [of w p] by (cases "w = v") simp_all
    show "w \<noteq> st" using wp d(6) [of w p] vst by (cases "w = v") simp_all
    show "p \<in> insert v (aD a)" using wp d(6) [of w p] u(1) by (cases "w = v") simp_all
    show "nbr g p w" using wp d(6) [of w p] n by (cases "w = v") simp_all
    show "((aR a)(v := r)) p < ((aR a)(v := r)) w"
    proof (cases "w = v")
      case True
      then show ?thesis using wp r uv by auto
    next
      case False
      then have o: "aPar a w = Some p" using wp by simp
      show ?thesis
      proof (cases "p = v")
        case True
        then have "v \<in> aD a" using d(6) [OF o] by simp
        then show ?thesis using old d(6) [OF o] True False by simp
      next
        case False
        then show ?thesis using d(6) [OF o] \<open>w \<noteq> v\<close> by simp
      qed
    qed
  next
    fix w assume "w \<in> insert v (aD a)" "w \<noteq> st"
    then show "((aPar a)(v \<mapsto> u)) w \<noteq> None" using d(7) [of w] by (cases "w = v") simp_all
  next
    fix e assume "e \<in># add_mset (r, v) (aQ a)"
    then show "snd e \<in> insert v (aD a)" using d(8) [of e] by (cases "e = (r, v)") simp_all
  next
    fix p assume "aPath a = Some p"
    then show "aDone a" "good_path g st gl p" using path_none by simp_all
  next
    assume "aDone a \<and> aPath a = None"
    then show "\<not> reachable g st gl" using nd by simp
  qed
  have "settled g gl ?a w" if w: "w \<in> insert v (aD a)" "w \<noteq> u" for w
  proof (cases "w = v")
    case True
    then show ?thesis by (simp add: settled_def relax_def)
  next
    case False
    then have "settled g gl a w" using w se [of w] by simp
    then show ?thesis using False by (simp add: settled_def relax_def) blast
  qed
  then show "AIx g st gl u ?a"
    using core nd u by (simp add: AIx_def D' O')
  have lt: "r < (if v \<in> aD a then aR a v else card (universe g st))"
  proof (cases "v \<in> aD a")
    case True
    then show ?thesis using old by simp
  next
    case False
    then have "aD a \<subset> universe g st" using d(2) vU by auto
    then have "card (aD a) < card (universe g st)"
      by (intro psubset_card_mono) simp_all
    then show ?thesis using new False by simp
  qed
  have "potential g st ?a < potential g st a"
    unfolding potential_def D' R'
    using potential_relax [of "universe g st" v r "aD a" "aR a"] vU lt by simp
  then show "load g st ?a < load g st a"
    by (simp add: load_def Q')
qed

lemma AI_core_queue:
  assumes c: "AI_core g st gl a" and sub: "\<And>e. e \<in># Q \<Longrightarrow> e \<in># aQ a"
  shows "AI_core g st gl (a\<lparr> aQ := Q \<rparr>)"
proof -
  note d = AI_coreD [OF c]
  show ?thesis
    unfolding AI_core_def
    using d(1,2,3,10) d(4) d(5) d(6) d(7) d(9) d(8) [OF sub]
    by (simp; blast)
qed

lemma in_remove_neq: "x \<noteq> e \<Longrightarrow> x \<in># M - {#e#} \<longleftrightarrow> x \<in># M"
  by (simp add: in_diff_count)

lemma settled_remove:
  assumes "settled g gl a w" "(aR a w, w) \<noteq> e"
  shows "settled g gl (a\<lparr> aQ := aQ a - {#e#} \<rparr>) w"
  using assms by (simp add: settled_def in_remove_neq)

lemma load_remove:
  "e \<in># aQ a \<Longrightarrow> Suc (load g st (a\<lparr> aQ := aQ a - {#e#} \<rparr>)) = load g st a"
proof -
  assume e: "e \<in># aQ a"
  then have "0 < size (aQ a)" by (cases "aQ a = {#}") (auto simp: nonempty_has_size)
  moreover have "potential g st (a\<lparr> aQ := aQ a - {#e#} \<rparr>) = potential g st a"
    by (simp add: potential_def cong: if_cong)
  ultimately show ?thesis using e by (simp add: load_def size_Diff_singleton)
qed

lemma AI_pop_expand:
  assumes ai: "AI g st gl a" and nd: "\<not> aDone a" and e: "(aR a u, u) \<in># aQ a" and u: "u \<noteq> gl"
  shows "AIx g st gl u (a\<lparr> aQ := aQ a - {#(aR a u, u)#} \<rparr>)"
proof -
  have c: "AI_core g st gl a" and se: "\<And>w. w \<in> aD a \<Longrightarrow> settled g gl a w"
    using ai nd by (simp_all add: AI_def)
  have "AI_core g st gl (a\<lparr> aQ := aQ a - {#(aR a u, u)#} \<rparr>)"
    by (rule AI_core_queue [OF c]) (rule in_diffD)
  moreover have "u \<in> aD a" using AI_coreD(8) [OF c e] by simp
  moreover have "settled g gl (a\<lparr> aQ := aQ a - {#(aR a u, u)#} \<rparr>) w"
    if "w \<in> aD a" "w \<noteq> u" for w
    using settled_remove [OF se [OF that(1)]] that(2) by simp
  ultimately show ?thesis using nd u by (simp add: AIx_def)
qed

lemma AI_stale:
  assumes ai: "AI g st gl a" and nd: "\<not> aDone a" and e: "(r, v) \<in># aQ a" and r: "r \<noteq> aR a v"
  shows "AI g st gl (a\<lparr> aQ := aQ a - {#(r, v)#} \<rparr>)"
proof -
  have c: "AI_core g st gl a" and se: "\<And>w. w \<in> aD a \<Longrightarrow> settled g gl a w"
    using ai nd by (simp_all add: AI_def)
  have "AI_core g st gl (a\<lparr> aQ := aQ a - {#(r, v)#} \<rparr>)"
    by (rule AI_core_queue [OF c]) (rule in_diffD)
  moreover have "settled g gl (a\<lparr> aQ := aQ a - {#(r, v)#} \<rparr>) w" if "w \<in> aD a" for w
    using settled_remove [OF se [OF that], of "(r, v)"] r by (cases "w = v") simp_all
  ultimately show ?thesis by (simp add: AI_def)
qed

lemma AIx_close:
  assumes x: "AIx g st gl u a" and cl: "\<And>q. nbr g u q \<Longrightarrow> q \<in> aD a"
  shows "AI g st gl a"
proof -
  have "settled g gl a w" if "w \<in> aD a" for w
  proof (cases "w = u")
    case True
    then show ?thesis using x cl by (simp add: settled_def AIx_def)
  next
    case False
    then show ?thesis using x that by (simp add: AIx_def)
  qed
  then show ?thesis using x by (simp add: AI_def AIx_def)
qed

lemma AI_goal:
  assumes ai: "AI g st gl a" and nd: "\<not> aDone a" and p: "good_path g st gl p"
    and that: "\<And>e. e \<in># Q \<Longrightarrow> e \<in># aQ a"
  shows "AI g st gl (a\<lparr> aQ := Q, aDone := True, aPath := Some p \<rparr>)"
proof -
  have c: "AI_core g st gl a" using ai by (simp add: AI_def)
  note d = AI_coreD [OF c]
  have "AI_core g st gl (a\<lparr> aQ := Q, aDone := True, aPath := Some p \<rparr>)"
    unfolding AI_core_def
    using d(1,2,3) d(4) d(5) d(6) d(7) d(8) [OF that] p
    by (simp; blast)
  then show ?thesis by (simp add: AI_def)
qed

lemma AI_closed_reach:
  assumes c: "AI_core g st gl a" and cl: "\<And>v. v \<in> aD a \<Longrightarrow> v \<noteq> gl \<and> (\<forall>q. nbr g v q \<longrightarrow> q \<in> aD a)"
  shows "\<not> reachable g st gl"
proof
  assume "reachable g st gl"
  then have "(nbr g)\<^sup>*\<^sup>* st gl" by (simp add: reachable_def)
  then have "gl \<in> aD a"
  proof (induction rule: rtranclp_induct)
    case base
    show ?case using AI_coreD(1) [OF c] .
  next
    case (step y z)
    then show ?case using cl [of y] by blast
  qed
  then show False using cl [of gl] by simp
qed

lemma AI_empty:
  assumes ai: "AI g st gl a" and nd: "\<not> aDone a" and e: "aQ a = {#}"
  shows "AI g st gl (a\<lparr> aDone := True \<rparr>)"
proof -
  have c: "AI_core g st gl a" and se: "\<And>w. w \<in> aD a \<Longrightarrow> settled g gl a w"
    using ai nd by (simp_all add: AI_def)
  note d = AI_coreD [OF c]
  have "\<not> reachable g st gl"
  proof (rule AI_closed_reach [OF c])
    fix v assume "v \<in> aD a"
    from se [OF this] show "v \<noteq> gl \<and> (\<forall>q. nbr g v q \<longrightarrow> q \<in> aD a)"
      using e by (simp add: settled_def)
  qed
  moreover have "aPath a = None"
    using d(9) nd by (cases "aPath a") auto
  ultimately have "AI_core g st gl (a\<lparr> aDone := True \<rparr>)"
    unfolding AI_core_def
    using d(1,2,3) d(4) d(5) d(6) d(7) d(8)
    by (simp; blast)
  then show ?thesis by (simp add: AI_def)
qed

lemma successively_rtranclp: "successively R (x # xs) \<Longrightarrow> R\<^sup>*\<^sup>* x (last (x # xs))"
  by (induction xs arbitrary: x) (auto intro: converse_rtranclp_into_rtranclp)

lemma good_path_reachable: "good_path g st gl p \<Longrightarrow> reachable g st gl"
  unfolding good_path_def reachable_def
  by (cases p) (auto dest: successively_rtranclp)

lemma AI_init: "AI g st gl (abs_init st)"
  by (simp add: AI_def AI_core_def abs_init_def universe_def reachable_def settled_def)

lemma walk_back_ok:
  assumes c: "AI_core g st gl a" and par: "map_of parent = aPar a"
  shows "cur \<in> aD a \<Longrightarrow> aR a cur \<le> fuel \<Longrightarrow> successively (nbr g) (cur # acc)
     \<Longrightarrow> distinct (cur # acc) \<Longrightarrow> (\<And>x. x \<in> set acc \<Longrightarrow> aR a cur < aR a x)
     \<Longrightarrow> \<exists>p. walk_back fuel parent st (cur # acc) = Inr p \<and> p \<noteq> [] \<and> hd p = st
            \<and> last p = last (cur # acc) \<and> distinct p \<and> successively (nbr g) p"
proof (induction fuel arbitrary: cur acc)
  case 0
  have "cur = st"
  proof (rule ccontr)
    assume "cur \<noteq> st"
    then obtain p where "aPar a cur = Some p" using AI_coreD(7) [OF c 0(1)] by blast
    then show False using AI_coreD(6) [OF c, of cur p] 0(2) by simp
  qed
  then show ?case using 0 by simp
next
  case (Suc n)
  show ?case
  proof (cases "cur = st")
    case True
    then show ?thesis using Suc.prems by simp
  next
    case False
    then obtain p where p: "aPar a cur = Some p" using AI_coreD(7) [OF c Suc.prems(1)] by blast
    note f = AI_coreD(6) [OF c p]
    have lk: "lookupE parent cur = Inr p" using p par by (simp add: lookupE_def)
    have 1: "p \<in> aD a" using f by simp
    have 2: "aR a p \<le> n" using f Suc.prems(2) by simp
    have 3: "successively (nbr g) (p # cur # acc)" using f Suc.prems(3) by simp
    have 5: "aR a p < aR a x" if "x \<in> set (cur # acc)" for x
      using that f Suc.prems(5) [of x] by (cases "x = cur") auto
    have 4: "distinct (p # cur # acc)"
      using Suc.prems(4) 5 by fastforce
    from Suc.IH [OF 1 2 3 4 5]
    obtain q where "walk_back n parent st (p # cur # acc) = Inr q" "q \<noteq> []" "hd q = st"
        "last q = last (p # cur # acc)" "distinct q" "successively (nbr g) q"
      by blast
    then show ?thesis using False lk by simp
  qed
qed

lemma AI_core_parent_card:
  assumes c: "AI_core g st gl a" and par: "map_of parent = aPar a"
  shows "card (aD a) \<le> Suc (length parent)"
proof -
  have "aD a \<subseteq> insert st (fst ` set parent)"
  proof
    fix v assume v: "v \<in> aD a"
    show "v \<in> insert st (fst ` set parent)"
    proof (cases "v = st")
      case True
      then show ?thesis by simp
    next
      case False
      then have "map_of parent v \<noteq> None" using AI_coreD(7) [OF c v] par by simp
      then show ?thesis by (simp add: map_of_eq_None_iff)
    qed
  qed
  then have "card (aD a) \<le> card (insert st (fst ` set parent))"
    by (intro card_mono) simp_all
  also have "\<dots> \<le> Suc (card (fst ` set parent))" by (simp add: card_insert_le_m1)
  also have "\<dots> \<le> Suc (length parent)"
    using card_image_le [of "set parent" fst] card_length [of parent] by simp
  finally show ?thesis .
qed

lemma reconstruct_ok:
  assumes c: "AI_core g st gl a" and par: "map_of parent = aPar a" and e: "e \<in> aD a"
  shows "\<exists>p. reconstruct parent st e = Inr p \<and> good_path g st e p"
proof -
  have "aR a e < card (aD a)" using AI_coreD(5) [OF c e] .
  then have "aR a e \<le> length parent" using AI_core_parent_card [OF c par] by simp
  from walk_back_ok [OF c par e this, of "[]"]
  obtain p where "walk_back (length parent) parent st [e] = Inr p" "p \<noteq> []" "hd p = st"
      "last p = e" "distinct p" "successively (nbr g) p"
    by auto
  then show ?thesis by (auto simp: reconstruct_def good_path_def)
qed

lemma search_neighbors_nbr:
  assumes "wf_grid g"
  shows "\<exists>ns. search_neighbors g rc = Inr ns \<and> set ns = {q. nbr g rc q}"
proof (cases rc)
  case (Pair r c)
  show ?thesis
    unfolding Pair search_neighbors_wf [OF assms]
    by (auto simp: nbr_def)
qed

lemma run_to_done:
  assumes step_ok: "\<And>now s a. R s a \<Longrightarrow> AI g st gl a \<Longrightarrow> \<not> aDone a \<Longrightarrow>
      \<exists>s' a'. step now s = Inr s' \<and> R s' a' \<and> AI g st gl a'
         \<and> (aDone a' \<or> load g st a' < load g st a)"
    and done_ok: "\<And>now s a. R s a \<Longrightarrow> aDone a \<Longrightarrow> \<exists>s'. step now s = Inr s' \<and> R s' a"
  shows "R s a \<Longrightarrow> AI g st gl a \<Longrightarrow> aDone a \<or> load g st a < length nows
     \<Longrightarrow> \<exists>s' a'. steps_with step nows s = Inr s' \<and> R s' a' \<and> AI g st gl a' \<and> aDone a'"
proof (induction nows arbitrary: s a)
  case Nil
  then show ?case by auto
next
  case (Cons now nows)
  show ?case
  proof (cases "aDone a")
    case True
    from done_ok [OF Cons.prems(1) True, of now]
    obtain s1 where 1: "step now s = Inr s1" "R s1 a" by blast
    from Cons.IH [OF 1(2) Cons.prems(2)] True
    show ?thesis using 1(1) by simp
  next
    case False
    from step_ok [OF Cons.prems(1,2) False, of now]
    obtain s1 a1 where 1: "step now s = Inr s1" "R s1 a1" "AI g st gl a1"
        "aDone a1 \<or> load g st a1 < load g st a"
      by blast
    have "aDone a1 \<or> load g st a1 < length nows"
      using 1(4) Cons.prems(3) False by auto
    from Cons.IH [OF 1(2,3) this]
    show ?thesis using 1(1) by simp
  qed
qed

lemma AI_done_path:
  assumes "AI g st gl a" "aDone a"
  shows "(aPath a = None \<longleftrightarrow> \<not> reachable g st gl)"
    "\<And>p. aPath a = Some p \<Longrightarrow> good_path g st gl p"
proof -
  have c: "AI_core g st gl a" using assms by (simp add: AI_def)
  show "\<And>p. aPath a = Some p \<Longrightarrow> good_path g st gl p" using AI_coreD(9) [OF c] by simp
  then show "(aPath a = None \<longleftrightarrow> \<not> reachable g st gl)"
    using AI_coreD(10) [OF c] assms(2) good_path_reachable by (cases "aPath a") auto
qed

subsection \<open>BFS keeps the invariant\<close>

lemma rel_BFS_init: "rel_BFS g st gl (BFS_init g st gl) (abs_init st)"
  by (simp add: rel_BFS_def BFS_init_def abs_init_def IncrementalSearch_init_def
      IncrementalSearch.defs BFS.defs)

lemma BFS_fold_sim:
  "AIx g st gl u a \<Longrightarrow> rel_BFS g st gl s a \<Longrightarrow> (\<And>q. q \<in> set ns \<Longrightarrow> nbr g u q)
   \<Longrightarrow> \<exists>a'. rel_BFS g st gl (fold (BFS_visit u) ns s) a' \<and> AIx g st gl u a'
         \<and> load g st a' \<le> load g st a \<and> aD a \<subseteq> aD a' \<and> set ns \<subseteq> aD a'"
proof (induction ns arbitrary: s a)
  case Nil
  then show ?case by auto
next
  case (Cons q ns)
  have nq: "nbr g u q" using Cons.prems(3) by simp
  have nn: "\<And>x. x \<in> set ns \<Longrightarrow> nbr g u x" using Cons.prems(3) by simp
  show ?case
  proof (cases "q \<in> aD a")
    case True
    then have "BFS_visit u q s = s" using Cons.prems(2) by (simp add: BFS_visit_def rel_BFS_def)
    then show ?thesis using Cons.IH [OF Cons.prems(1,2) nn] True by auto
  next
    case False
    let ?a = "relax u (card (aD a)) q a"
    let ?s = "BFS_visit u q s"
    have c: "AI_core g st gl a" and u: "u \<in> aD a" using Cons.prems(1) by (simp_all add: AIx_def)
    have ru: "aR a u < card (aD a)" using AI_coreD(5) [OF c u] .
    have x: "AIx g st gl u ?a" and l: "load g st ?a < load g st a"
      using AIx_relax [OF Cons.prems(1) nq ru] False by simp_all
    have qs: "v \<in> aD a" if "v \<in> set (queue s)" for v
    proof -
      have "aQ a = mset (map (\<lambda>v. (aR a v, v)) (queue s))"
        using Cons.prems(2) by (simp add: rel_BFS_def)
      then have "(aR a v, v) \<in># aQ a" using that by simp
      then show ?thesis using AI_coreD(8) [OF c, of "(aR a v, v)"] by simp
    qed
    have "mset (map (\<lambda>v. (((aR a)(q := card (aD a))) v, v)) (queue s))
          = mset (map (\<lambda>v. (aR a v, v)) (queue s))"
      by (rule arg_cong [where f = mset], rule map_cong [OF refl]) (use qs False in auto)
    then have r: "rel_BFS g st gl ?s ?a"
      using Cons.prems(2) False by (simp add: rel_BFS_def BFS_visit_def relax_def)
    from Cons.IH [OF x r nn]
    obtain a' where "rel_BFS g st gl (fold (BFS_visit u) ns ?s) a'" "AIx g st gl u a'"
        "load g st a' \<le> load g st ?a" "aD ?a \<subseteq> aD a'" "set ns \<subseteq> aD a'"
      by blast
    then show ?thesis using l by (auto simp: relax_def intro!: exI [of _ a'])
  qed
qed

lemma BFS_step_sim:
  assumes wf: "wf_grid g" and r: "rel_BFS g st gl s a" and ai: "AI g st gl a" and nd: "\<not> aDone a"
  shows "\<exists>s' a'. BFS_step now s = Inr s' \<and> rel_BFS g st gl s' a' \<and> AI g st gl a'
           \<and> (aDone a' \<or> load g st a' < load g st a)"
proof (cases "queue s")
  case Nil
  then have "aQ a = {#}" using r by (auto simp: rel_BFS_def)
  then have "AI g st gl (a\<lparr> aDone := True \<rparr>)" using AI_empty [OF ai nd] by simp
  moreover have "rel_BFS g st gl (finish_idle now s) (a\<lparr> aDone := True \<rparr>)"
    using r by (simp add: rel_BFS_def finish_idle_def)
  moreover have "BFS_step now s = Inr (finish_idle now s)" using Nil by (simp add: BFS_step_def)
  ultimately show ?thesis by (intro exI [of _ "finish_idle now s"] exI [of _ "a\<lparr> aDone := True \<rparr>"]) simp
next
  case (Cons rc rest)
  have c: "AI_core g st gl a" using ai by (simp add: AI_def)
  have sd: "\<not> s_done s" using r nd by (simp add: rel_BFS_def)
  have Q: "aQ a = add_mset (aR a rc, rc) (mset (map (\<lambda>v. (aR a v, v)) rest))"
    using r Cons by (auto simp: rel_BFS_def)
  then have e: "(aR a rc, rc) \<in># aQ a" by simp
  then have rcD: "rc \<in> aD a" using AI_coreD(8) [OF c e] by simp
  let ?Q = "mset (map (\<lambda>v. (aR a v, v)) rest)"
  have Qd: "aQ a - {#(aR a rc, rc)#} = ?Q" using Q by simp
  let ?s1 = "s\<lparr> queue := rest, explored := explored s + 1, s_dirty := insert rc (s_dirty s) \<rparr>"
  show ?thesis
  proof (cases "rc = gl")
    case True
    from reconstruct_ok [OF c _ rcD, of "parent_B s"] r
    obtain p where p: "reconstruct (parent_B s) st rc = Inr p" "good_path g st rc p"
      by (auto simp: rel_BFS_def)
    let ?a = "a\<lparr> aQ := ?Q, aDone := True, aPath := Some p \<rparr>"
    let ?s = "?s1\<lparr> s_done := True, path := Some p, t1 := now \<rparr>"
    have "AI g st gl ?a"
      using AI_goal [OF ai nd, of p ?Q] p(2) True Q by simp
    moreover have "rel_BFS g st gl ?s ?a" using r by (simp add: rel_BFS_def)
    moreover have "BFS_step now s = Inr ?s"
      using Cons sd True p(1) r by (simp add: BFS_step_def rel_BFS_def Let_def)
    ultimately show ?thesis by (intro exI [of _ ?s] exI [of _ ?a]) simp
  next
    case False
    let ?a = "a\<lparr> aQ := aQ a - {#(aR a rc, rc)#} \<rparr>"
    have x: "AIx g st gl rc ?a" using AI_pop_expand [OF ai nd e False] .
    have l: "Suc (load g st ?a) = load g st a" using load_remove [OF e] .
    have r1: "rel_BFS g st gl ?s1 ?a" using r Qd by (simp add: rel_BFS_def)
    from search_neighbors_nbr [OF wf, of rc]
    obtain ns where ns: "search_neighbors g rc = Inr ns" "set ns = {q. nbr g rc q}" by blast
    from BFS_fold_sim [OF x r1, of ns] ns(2)
    obtain a' where a': "rel_BFS g st gl (fold (BFS_visit rc) ns ?s1) a'" "AIx g st gl rc a'"
        "load g st a' \<le> load g st ?a" "set ns \<subseteq> aD a'"
      by auto
    have "AI g st gl a'" using AIx_close [OF a'(2)] a'(4) ns(2) by auto
    moreover have "BFS_step now s = Inr (fold (BFS_visit rc) ns ?s1)"
      using Cons sd False ns(1) r by (simp add: BFS_step_def rel_BFS_def Let_def)
    ultimately show ?thesis using a'(1,3) l
      by (intro exI [of _ "fold (BFS_visit rc) ns ?s1"] exI [of _ a']) simp
  qed
qed

lemma BFS_step_idle:
  assumes "rel_BFS g st gl s a" "aDone a"
  shows "\<exists>s'. BFS_step now s = Inr s' \<and> rel_BFS g st gl s' a"
  using assms by (auto simp: BFS_step_def rel_BFS_def finish_idle_def)

lemma BFS_runs:
  assumes wf: "wf_grid g" and n: "load g st (abs_init st) < length nows"
  shows "\<exists>s'. BFS_steps nows (BFS_init g st gl) = Inr s' \<and> s_done s'
     \<and> (path s' = None \<longleftrightarrow> \<not> reachable g st gl)
     \<and> (\<forall>p. path s' = Some p \<longrightarrow> good_path g st gl p)"
proof -
  have "\<exists>s' a'. steps_with BFS_step nows (BFS_init g st gl) = Inr s' \<and> rel_BFS g st gl s' a'
          \<and> AI g st gl a' \<and> aDone a'"
    by (rule run_to_done [where R = "rel_BFS g st gl" and a = "abs_init st"])
       (use BFS_step_sim [OF wf] BFS_step_idle rel_BFS_init AI_init n in blast)+
  then obtain s' a' where "BFS_steps nows (BFS_init g st gl) = Inr s'" "rel_BFS g st gl s' a'"
      "AI g st gl a'" "aDone a'"
    by blast
  then show ?thesis using AI_done_path [of g st gl a'] by (auto simp: rel_BFS_def)
qed

subsection \<open>DFS keeps the invariant\<close>

lemma rel_DFS_init: "rel_DFS g st gl (DFS_init g st gl) (abs_init st)"
  by (simp add: rel_DFS_def DFS_init_def abs_init_def IncrementalSearch_init_def
      IncrementalSearch.defs DFS.defs)

lemma DFS_fold_sim:
  "AIx g st gl u a \<Longrightarrow> rel_DFS g st gl s a \<Longrightarrow> (\<And>q. q \<in> set ns \<Longrightarrow> nbr g u q)
   \<Longrightarrow> \<exists>a'. rel_DFS g st gl (fold (DFS_visit u) ns s) a' \<and> AIx g st gl u a'
         \<and> load g st a' \<le> load g st a \<and> aD a \<subseteq> aD a' \<and> set ns \<subseteq> aD a'"
proof (induction ns arbitrary: s a)
  case Nil
  then show ?case by auto
next
  case (Cons q ns)
  have nq: "nbr g u q" using Cons.prems(3) by simp
  have nn: "\<And>x. x \<in> set ns \<Longrightarrow> nbr g u x" using Cons.prems(3) by simp
  show ?case
  proof (cases "q \<in> aD a")
    case True
    then have "DFS_visit u q s = s" using Cons.prems(2) by (simp add: DFS_visit_def rel_DFS_def)
    then show ?thesis using Cons.IH [OF Cons.prems(1,2) nn] True by auto
  next
    case False
    let ?a = "relax u (card (aD a)) q a"
    let ?s = "DFS_visit u q s"
    have c: "AI_core g st gl a" and u: "u \<in> aD a" using Cons.prems(1) by (simp_all add: AIx_def)
    have ru: "aR a u < card (aD a)" using AI_coreD(5) [OF c u] .
    have x: "AIx g st gl u ?a" and l: "load g st ?a < load g st a"
      using AIx_relax [OF Cons.prems(1) nq ru] False by simp_all
    have qs: "v \<in> aD a" if "v \<in> set (stack s)" for v
    proof -
      have "aQ a = mset (map (\<lambda>v. (aR a v, v)) (stack s))"
        using Cons.prems(2) by (simp add: rel_DFS_def)
      then have "(aR a v, v) \<in># aQ a" using that by simp
      then show ?thesis using AI_coreD(8) [OF c, of "(aR a v, v)"] by simp
    qed
    have "mset (map (\<lambda>v. (((aR a)(q := card (aD a))) v, v)) (stack s))
          = mset (map (\<lambda>v. (aR a v, v)) (stack s))"
      by (rule arg_cong [where f = mset], rule map_cong [OF refl]) (use qs False in auto)
    then have r: "rel_DFS g st gl ?s ?a"
      using Cons.prems(2) False by (simp add: rel_DFS_def DFS_visit_def relax_def)
    from Cons.IH [OF x r nn]
    obtain a' where "rel_DFS g st gl (fold (DFS_visit u) ns ?s) a'" "AIx g st gl u a'"
        "load g st a' \<le> load g st ?a" "aD ?a \<subseteq> aD a'" "set ns \<subseteq> aD a'"
      by blast
    then show ?thesis using l by (auto simp: relax_def intro!: exI [of _ a'])
  qed
qed

lemma DFS_step_sim:
  assumes wf: "wf_grid g" and r: "rel_DFS g st gl s a" and ai: "AI g st gl a" and nd: "\<not> aDone a"
  shows "\<exists>s' a'. DFS_step now s = Inr s' \<and> rel_DFS g st gl s' a' \<and> AI g st gl a'
           \<and> (aDone a' \<or> load g st a' < load g st a)"
proof (cases "stack s = []")
  case True
  then have "aQ a = {#}" using r by (auto simp: rel_DFS_def)
  then have "AI g st gl (a\<lparr> aDone := True \<rparr>)" using AI_empty [OF ai nd] by simp
  moreover have "rel_DFS g st gl (finish_idle now s) (a\<lparr> aDone := True \<rparr>)"
    using r by (simp add: rel_DFS_def finish_idle_def)
  moreover have "DFS_step now s = Inr (finish_idle now s)" using True by (simp add: DFS_step_def)
  ultimately show ?thesis by (intro exI [of _ "finish_idle now s"] exI [of _ "a\<lparr> aDone := True \<rparr>"]) simp
next
  case ne: False
  define rc where "rc = last (stack s)"
  define rest where "rest = butlast (stack s)"
  have st: "stack s = rest @ [rc]" using ne by (simp add: rc_def rest_def)
  have c: "AI_core g st gl a" using ai by (simp add: AI_def)
  have sd: "\<not> s_done s" using r nd by (simp add: rel_DFS_def)
  have Q: "aQ a = add_mset (aR a rc, rc) (mset (map (\<lambda>v. (aR a v, v)) rest))"
    using r st by (auto simp: rel_DFS_def)
  then have e: "(aR a rc, rc) \<in># aQ a" by simp
  then have rcD: "rc \<in> aD a" using AI_coreD(8) [OF c e] by simp
  let ?Q = "mset (map (\<lambda>v. (aR a v, v)) rest)"
  have Qd: "aQ a - {#(aR a rc, rc)#} = ?Q" using Q by simp
  let ?s1 = "s\<lparr> stack := rest, explored := explored s + 1, s_dirty := insert rc (s_dirty s) \<rparr>"
  show ?thesis
  proof (cases "rc = gl")
    case True
    from reconstruct_ok [OF c _ rcD, of "parent_D s"] r
    obtain p where p: "reconstruct (parent_D s) st rc = Inr p" "good_path g st rc p"
      by (auto simp: rel_DFS_def)
    let ?a = "a\<lparr> aQ := ?Q, aDone := True, aPath := Some p \<rparr>"
    let ?s = "?s1\<lparr> s_done := True, path := Some p, t1 := now \<rparr>"
    have "AI g st gl ?a"
      using AI_goal [OF ai nd, of p ?Q] p(2) True Q by simp
    moreover have "rel_DFS g st gl ?s ?a" using r by (simp add: rel_DFS_def)
    moreover have "DFS_step now s = Inr ?s"
      using ne sd True p(1) r
      by (simp add: DFS_step_def rel_DFS_def Let_def rc_def [symmetric] rest_def [symmetric])
    ultimately show ?thesis by (intro exI [of _ ?s] exI [of _ ?a]) simp
  next
    case False
    let ?a = "a\<lparr> aQ := aQ a - {#(aR a rc, rc)#} \<rparr>"
    have x: "AIx g st gl rc ?a" using AI_pop_expand [OF ai nd e False] .
    have l: "Suc (load g st ?a) = load g st a" using load_remove [OF e] .
    have r1: "rel_DFS g st gl ?s1 ?a" using r Qd by (simp add: rel_DFS_def)
    from search_neighbors_nbr [OF wf, of rc]
    obtain ns where ns: "search_neighbors g rc = Inr ns" "set ns = {q. nbr g rc q}" by blast
    from DFS_fold_sim [OF x r1, of "rev ns"] ns(2)
    obtain a' where a': "rel_DFS g st gl (fold (DFS_visit rc) (rev ns) ?s1) a'" "AIx g st gl rc a'"
        "load g st a' \<le> load g st ?a" "set ns \<subseteq> aD a'"
      by auto
    have "AI g st gl a'" using AIx_close [OF a'(2)] a'(4) ns(2) by auto
    moreover have "DFS_step now s = Inr (fold (DFS_visit rc) (rev ns) ?s1)"
      using ne sd False ns(1) r
      by (simp add: DFS_step_def rel_DFS_def Let_def rc_def [symmetric] rest_def [symmetric])
    ultimately show ?thesis using a'(1,3) l
      by (intro exI [of _ "fold (DFS_visit rc) (rev ns) ?s1"] exI [of _ a']) simp
  qed
qed

lemma DFS_step_idle:
  assumes "rel_DFS g st gl s a" "aDone a"
  shows "\<exists>s'. DFS_step now s = Inr s' \<and> rel_DFS g st gl s' a"
  using assms by (auto simp: DFS_step_def rel_DFS_def finish_idle_def)

lemma DFS_runs:
  assumes wf: "wf_grid g" and n: "load g st (abs_init st) < length nows"
  shows "\<exists>s'. DFS_steps nows (DFS_init g st gl) = Inr s' \<and> s_done s'
     \<and> (path s' = None \<longleftrightarrow> \<not> reachable g st gl)
     \<and> (\<forall>p. path s' = Some p \<longrightarrow> good_path g st gl p)"
proof -
  have "\<exists>s' a'. steps_with DFS_step nows (DFS_init g st gl) = Inr s' \<and> rel_DFS g st gl s' a'
          \<and> AI g st gl a' \<and> aDone a'"
    by (rule run_to_done [where R = "rel_DFS g st gl" and a = "abs_init st"])
       (use DFS_step_sim [OF wf] DFS_step_idle rel_DFS_init AI_init n in blast)+
  then obtain s' a' where "DFS_steps nows (DFS_init g st gl) = Inr s'" "rel_DFS g st gl s' a'"
      "AI g st gl a'" "aDone a'"
    by blast
  then show ?thesis using AI_done_path [of g st gl a'] by (auto simp: rel_DFS_def)
qed

subsection \<open>Dijkstra keeps the invariant\<close>

lemma rank_map_relax:
  "rank_map (relax u r v a) = (rank_map a)(v \<mapsto> int r)"
  by (auto simp: rank_map_def relax_def)

lemma rank_map_simps [simp]:
  "rank_map (a\<lparr> aQ := Q \<rparr>) = rank_map a" "rank_map (a\<lparr> aDone := b \<rparr>) = rank_map a"
  "rank_map (a\<lparr> aPath := p \<rparr>) = rank_map a"
  by (simp_all add: rank_map_def cong: if_cong)

lemma rel_Dijkstra_init: "rel_Dijkstra g st gl (Dijkstra_init g st gl) (abs_init st)"
  by (auto simp add: rel_Dijkstra_def Dijkstra_init_def abs_init_def IncrementalSearch_init_def
      IncrementalSearch.defs Dijkstra.defs heappush_def rank_map_def)

lemma Dijkstra_fold_sim:
  "AIx g st gl u a \<Longrightarrow> rel_Dijkstra g st gl s a \<Longrightarrow> (\<And>q. q \<in> set ns \<Longrightarrow> nbr g u q)
   \<Longrightarrow> d = int (aR a u)
   \<Longrightarrow> \<exists>a'. rel_Dijkstra g st gl (fold (Dijkstra_visit d u) ns s) a' \<and> AIx g st gl u a'
         \<and> load g st a' \<le> load g st a \<and> aD a \<subseteq> aD a' \<and> set ns \<subseteq> aD a'"
proof (induction ns arbitrary: s a)
  case Nil
  then show ?case by auto
next
  case (Cons q ns)
  have nq: "nbr g u q" using Cons.prems(3) by simp
  have nn: "\<And>x. x \<in> set ns \<Longrightarrow> nbr g u x" using Cons.prems(3) by simp
  have dq: "map_of (dist s) q = rank_map a q" using Cons.prems(2) by (simp add: rel_Dijkstra_def)
  show ?case
  proof (cases "q \<in> aD a \<and> aR a q \<le> aR a u + 1")
    case True
    then have "Dijkstra_visit d u q s = s"
      using dq Cons.prems(4) by (simp add: Dijkstra_visit_def rank_map_def)
    then show ?thesis using Cons.IH [OF Cons.prems(1,2) nn Cons.prems(4)] True by auto
  next
    case False
    let ?a = "relax u (aR a u + 1) q a"
    let ?s = "Dijkstra_visit d u q s"
    have c: "AI_core g st gl a" and u: "u \<in> aD a" using Cons.prems(1) by (simp_all add: AIx_def)
    have ru: "aR a u < card (aD a)" using AI_coreD(5) [OF c u] .
    have old: "q \<in> aD a \<Longrightarrow> aR a u + 1 < aR a q" using False by auto
    have new: "q \<notin> aD a \<Longrightarrow> aR a u + 1 \<le> card (aD a)" using ru by simp
    have x: "AIx g st gl u ?a" and l: "load g st ?a < load g st a"
      using AIx_relax [OF Cons.prems(1) nq _ old new] by simp_all
    have s: "?s = s\<lparr> dist := (q, d + 1) # dist s, parent_J := (q, u) # parent_J s,
                 tie_J := tie_J s + 1, pq_J := heappush (pq_J s) (d + 1, tie_J s + 1, q) \<rparr>"
    proof -
      have "case map_of (dist s) q of None \<Rightarrow> True | Some old \<Rightarrow> d + 1 < old"
        using dq Cons.prems(4) old by (cases "q \<in> aD a") (simp_all add: rank_map_def)
      then show ?thesis by (simp add: Dijkstra_visit_def Let_def)
    qed
    have r: "rel_Dijkstra g st gl ?s ?a"
      unfolding s using Cons.prems(2,4)
      by (auto simp: rel_Dijkstra_def rank_map_relax heappush_def set_insort_key)
         (simp_all add: relax_def)
    have uq: "u \<noteq> q" using nq by (rule nbr_irrefl)
    have d': "d = int (aR ?a u)" using Cons.prems(4) uq by (simp add: relax_def)
    from Cons.IH [OF x r nn d']
    obtain a' where "rel_Dijkstra g st gl (fold (Dijkstra_visit d u) ns ?s) a'" "AIx g st gl u a'"
        "load g st a' \<le> load g st ?a" "aD ?a \<subseteq> aD a'" "set ns \<subseteq> aD a'"
      by blast
    then show ?thesis using l by (auto simp: relax_def intro!: exI [of _ a'])
  qed
qed

lemma Dijkstra_step_sim:
  assumes wf: "wf_grid g" and r: "rel_Dijkstra g st gl s a" and ai: "AI g st gl a"
    and nd: "\<not> aDone a"
  shows "\<exists>s' a'. Dijkstra_step now s = Inr s' \<and> rel_Dijkstra g st gl s' a' \<and> AI g st gl a'
           \<and> (aDone a' \<or> load g st a' < load g st a)"
proof (cases "pq_J s")
  case Nil
  then have "aQ a = {#}" using r by (auto simp: rel_Dijkstra_def)
  then have "AI g st gl (a\<lparr> aDone := True \<rparr>)" using AI_empty [OF ai nd] by simp
  moreover have "rel_Dijkstra g st gl (finish_idle now s) (a\<lparr> aDone := True \<rparr>)"
    using r by (simp add: rel_Dijkstra_def finish_idle_def)
  moreover have "Dijkstra_step now s = Inr (finish_idle now s)"
    using Nil by (simp add: Dijkstra_step_def)
  ultimately show ?thesis by (intro exI [of _ "finish_idle now s"] exI [of _ "a\<lparr> aDone := True \<rparr>"]) simp
next
  case (Cons ent rest)
  obtain d tie rc where ent: "ent = (d, tie, rc)" by (cases ent) auto
  have c: "AI_core g st gl a" using ai by (simp add: AI_def)
  have sd: "\<not> s_done s" using r nd by (simp add: rel_Dijkstra_def)
  let ?Q = "mset (map (\<lambda>e. (nat (fst e), snd (snd e))) rest)"
  have Q: "aQ a = add_mset (nat d, rc) ?Q"
    using r Cons ent by (auto simp: rel_Dijkstra_def)
  then have e: "(nat d, rc) \<in># aQ a" by simp
  then have rcD: "rc \<in> aD a" using AI_coreD(8) [OF c e] by simp
  have d0: "0 \<le> d" using r Cons ent by (auto simp: rel_Dijkstra_def)
  have drc: "map_of (dist s) rc = Some (int (aR a rc))"
    using r rcD by (simp add: rel_Dijkstra_def rank_map_def)
  have Qd: "aQ a - {#(nat d, rc)#} = ?Q" using Q by simp
  let ?a = "a\<lparr> aQ := aQ a - {#(nat d, rc)#} \<rparr>"
  let ?s0 = "s\<lparr> pq_J := rest \<rparr>"
  have l: "Suc (load g st ?a) = load g st a" using load_remove [OF e] .
  have r0: "rel_Dijkstra g st gl ?s0 ?a" using r Qd Cons by (simp add: rel_Dijkstra_def)
  show ?thesis
  proof (cases "d = int (aR a rc)")
    case stale: False
    then have "nat d \<noteq> aR a rc" using d0 by auto
    then have "AI g st gl ?a" using AI_stale [OF ai nd e] by simp
    moreover have "Dijkstra_step now s = Inr ?s0"
      using Cons ent sd stale drc by (simp add: Dijkstra_step_def Let_def)
    ultimately show ?thesis using r0 l by (intro exI [of _ ?s0] exI [of _ ?a]) simp
  next
    case live: True
    then have nd_eq: "nat d = aR a rc" by simp
    let ?s1 = "?s0\<lparr> explored := explored ?s0 + 1, s_dirty := insert rc (s_dirty ?s0) \<rparr>"
    have r1: "rel_Dijkstra g st gl ?s1 ?a" using r0 by (simp add: rel_Dijkstra_def)
    show ?thesis
    proof (cases "rc = gl")
      case True
      from reconstruct_ok [OF c _ rcD, of "parent_J s"] r
      obtain p where p: "reconstruct (parent_J s) st rc = Inr p" "good_path g st rc p"
        by (auto simp: rel_Dijkstra_def)
      let ?b = "a\<lparr> aQ := ?Q, aDone := True, aPath := Some p \<rparr>"
      let ?s = "?s1\<lparr> s_done := True, path := Some p, t1 := now \<rparr>"
      have "AI g st gl ?b"
        using AI_goal [OF ai nd, of p ?Q] p(2) True Q by simp
      moreover have "rel_Dijkstra g st gl ?s ?b" using r Cons by (simp add: rel_Dijkstra_def)
      moreover have "Dijkstra_step now s = Inr ?s"
        using Cons ent sd True p(1) r live drc by (simp add: Dijkstra_step_def rel_Dijkstra_def Let_def)
      ultimately show ?thesis by (intro exI [of _ ?s] exI [of _ ?b]) simp
    next
      case False
      have x: "AIx g st gl rc ?a" using AI_pop_expand [OF ai nd _ False] e nd_eq by simp
      from search_neighbors_nbr [OF wf, of rc]
      obtain ns where ns: "search_neighbors g rc = Inr ns" "set ns = {q. nbr g rc q}" by blast
      have "d = int (aR ?a rc)" using live by simp
      from Dijkstra_fold_sim [OF x r1 _ this, of ns] ns(2)
      obtain a' where a': "rel_Dijkstra g st gl (fold (Dijkstra_visit d rc) ns ?s1) a'"
          "AIx g st gl rc a'" "load g st a' \<le> load g st ?a" "set ns \<subseteq> aD a'"
        by auto
      have "AI g st gl a'" using AIx_close [OF a'(2)] a'(4) ns(2) by auto
      moreover have "Dijkstra_step now s = Inr (fold (Dijkstra_visit d rc) ns ?s1)"
        using Cons ent sd False ns(1) r live drc
        by (simp add: Dijkstra_step_def rel_Dijkstra_def Let_def)
      ultimately show ?thesis using a'(1,3) l
        by (intro exI [of _ "fold (Dijkstra_visit d rc) ns ?s1"] exI [of _ a']) simp
    qed
  qed
qed

lemma Dijkstra_step_idle:
  assumes "rel_Dijkstra g st gl s a" "aDone a"
  shows "\<exists>s'. Dijkstra_step now s = Inr s' \<and> rel_Dijkstra g st gl s' a"
  using assms by (auto simp: Dijkstra_step_def rel_Dijkstra_def finish_idle_def)

lemma Dijkstra_runs:
  assumes wf: "wf_grid g" and n: "load g st (abs_init st) < length nows"
  shows "\<exists>s'. Dijkstra_steps nows (Dijkstra_init g st gl) = Inr s' \<and> s_done s'
     \<and> (path s' = None \<longleftrightarrow> \<not> reachable g st gl)
     \<and> (\<forall>p. path s' = Some p \<longrightarrow> good_path g st gl p)"
proof -
  have "\<exists>s' a'. steps_with Dijkstra_step nows (Dijkstra_init g st gl) = Inr s'
          \<and> rel_Dijkstra g st gl s' a' \<and> AI g st gl a' \<and> aDone a'"
    by (rule run_to_done [where R = "rel_Dijkstra g st gl" and a = "abs_init st"])
       (use Dijkstra_step_sim [OF wf] Dijkstra_step_idle rel_Dijkstra_init AI_init n in blast)+
  then obtain s' a' where "Dijkstra_steps nows (Dijkstra_init g st gl) = Inr s'"
      "rel_Dijkstra g st gl s' a'" "AI g st gl a'" "aDone a'"
    by blast
  then show ?thesis using AI_done_path [of g st gl a'] by (auto simp: rel_Dijkstra_def)
qed

subsection \<open>A* keeps the invariant\<close>

lemma rel_AStar_init: "rel_AStar g st gl (AStar_init g st gl) (abs_init st)"
  by (auto simp add: rel_AStar_def AStar_init_def abs_init_def IncrementalSearch_init_def
      IncrementalSearch.defs AStar.defs heappush_def rank_map_def)

lemma manhattan_nonneg: "0 \<le> manhattan p q"
  by (simp add: manhattan_def)

lemma AStar_fold_sim:
  "AIx g st gl u a \<Longrightarrow> rel_AStar g st gl s a \<Longrightarrow> (\<And>q. q \<in> set ns \<Longrightarrow> nbr g u q)
   \<Longrightarrow> \<exists>s' a'. foldE (AStar_visit u) ns s = Inr s' \<and> rel_AStar g st gl s' a'
         \<and> AIx g st gl u a'
         \<and> load g st a' \<le> load g st a \<and> aD a \<subseteq> aD a' \<and> set ns \<subseteq> aD a'"
proof (induction ns arbitrary: s a)
  case Nil
  then show ?case by auto
next
  case (Cons q ns)
  have nq: "nbr g u q" using Cons.prems(3) by simp
  have nn: "\<And>x. x \<in> set ns \<Longrightarrow> nbr g u x" using Cons.prems(3) by simp
  have c: "AI_core g st gl a" and u: "u \<in> aD a" using Cons.prems(1) by (simp_all add: AIx_def)
  have gq: "map_of (g_A s) q = rank_map a q" using Cons.prems(2) by (simp add: rel_AStar_def)
  have "map_of (g_A s) u = Some (int (aR a u))"
    using Cons.prems(2) u by (simp add: rel_AStar_def rank_map_def)
  then have gu: "lookupE (g_A s) u = Inr (int (aR a u))" by (simp add: lookupE_def)
  have gls: "s_goal s = gl" using Cons.prems(2) by (simp add: rel_AStar_def)
  show ?case
  proof (cases "q \<in> aD a \<and> aR a q \<le> aR a u + 1")
    case True
    then have "AStar_visit u q s = Inr s"
      using gq gu by (simp add: AStar_visit_def rank_map_def Let_def)
    then show ?thesis using Cons.IH [OF Cons.prems(1,2) nn] True by auto
  next
    case False
    let ?a = "relax u (aR a u + 1) q a"
    let ?d = "int (aR a u) + 1"
    let ?s = "s\<lparr> g_A := (q, ?d) # g_A s, parent_A := (q, u) # parent_A s,
                 tie_A := tie_A s + 1,
                 pq_A := heappush (pq_A s) (?d + manhattan q gl, tie_A s + 1, q) \<rparr>"
    have ru: "aR a u < card (aD a)" using AI_coreD(5) [OF c u] .
    have old: "q \<in> aD a \<Longrightarrow> aR a u + 1 < aR a q" using False by auto
    have new: "q \<notin> aD a \<Longrightarrow> aR a u + 1 \<le> card (aD a)" using ru by simp
    have x: "AIx g st gl u ?a" and l: "load g st ?a < load g st a"
      using AIx_relax [OF Cons.prems(1) nq _ old new] by simp_all
    have s: "AStar_visit u q s = Inr ?s"
    proof -
      have "case map_of (g_A s) q of None \<Rightarrow> True | Some old \<Rightarrow> ?d < old"
        using gq old by (cases "q \<in> aD a") (simp_all add: rank_map_def)
      then show ?thesis using gu gls by (simp add: AStar_visit_def Let_def)
    qed
    have r: "rel_AStar g st gl ?s ?a"
      using Cons.prems(2) manhattan_nonneg [of q gl]
      by (auto simp: rel_AStar_def rank_map_relax heappush_def set_insort_key)
         (simp_all add: relax_def)
    from Cons.IH [OF x r nn]
    obtain s' a' where "foldE (AStar_visit u) ns ?s = Inr s'" "rel_AStar g st gl s' a'"
        "AIx g st gl u a'"
        "load g st a' \<le> load g st ?a" "aD ?a \<subseteq> aD a'" "set ns \<subseteq> aD a'"
      by blast
    then show ?thesis using l s by (auto simp: relax_def intro!: exI [of _ a'])
  qed
qed

lemma AStar_step_sim:
  assumes wf: "wf_grid g" and r: "rel_AStar g st gl s a" and ai: "AI g st gl a"
    and nd: "\<not> aDone a"
  shows "\<exists>s' a'. AStar_step now s = Inr s' \<and> rel_AStar g st gl s' a' \<and> AI g st gl a'
           \<and> (aDone a' \<or> load g st a' < load g st a)"
proof (cases "pq_A s")
  case Nil
  then have "aQ a = {#}" using r by (auto simp: rel_AStar_def)
  then have "AI g st gl (a\<lparr> aDone := True \<rparr>)" using AI_empty [OF ai nd] by simp
  moreover have "rel_AStar g st gl (finish_idle now s) (a\<lparr> aDone := True \<rparr>)"
    using r by (simp add: rel_AStar_def finish_idle_def)
  moreover have "AStar_step now s = Inr (finish_idle now s)"
    using Nil by (simp add: AStar_step_def)
  ultimately show ?thesis by (intro exI [of _ "finish_idle now s"] exI [of _ "a\<lparr> aDone := True \<rparr>"]) simp
next
  case (Cons ent rest)
  obtain f tie rc where ent: "ent = (f, tie, rc)" by (cases ent) auto
  define d where "d = f - manhattan rc gl"
  have c: "AI_core g st gl a" using ai by (simp add: AI_def)
  have sd: "\<not> s_done s" using r nd by (simp add: rel_AStar_def)
  have gls: "s_goal s = gl" using r by (simp add: rel_AStar_def)
  let ?Q = "mset (map (\<lambda>e. (nat (fst e - manhattan (snd (snd e)) gl), snd (snd e))) rest)"
  have Q: "aQ a = add_mset (nat d, rc) ?Q"
    using r Cons ent by (auto simp: rel_AStar_def d_def)
  then have e: "(nat d, rc) \<in># aQ a" by simp
  then have rcD: "rc \<in> aD a" using AI_coreD(8) [OF c e] by simp
  have d0: "0 \<le> d" using r Cons ent by (auto simp: rel_AStar_def d_def)
  have "map_of (g_A s) rc = Some (int (aR a rc))"
    using r rcD by (simp add: rel_AStar_def rank_map_def)
  then have frc: "f_score (s\<lparr> pq_A := rest \<rparr>) rc = Some (int (aR a rc) + manhattan rc gl)"
    using gls by (simp add: f_score_def)
  have Qd: "aQ a - {#(nat d, rc)#} = ?Q" using Q by simp
  let ?a = "a\<lparr> aQ := aQ a - {#(nat d, rc)#} \<rparr>"
  let ?s0 = "s\<lparr> pq_A := rest \<rparr>"
  have l: "Suc (load g st ?a) = load g st a" using load_remove [OF e] .
  have r0: "rel_AStar g st gl ?s0 ?a" using r Qd Cons by (simp add: rel_AStar_def)
  show ?thesis
  proof (cases "d = int (aR a rc)")
    case stale: False
    then have "nat d \<noteq> aR a rc" using d0 by auto
    then have "AI g st gl ?a" using AI_stale [OF ai nd e] by simp
    moreover have "f \<noteq> int (aR a rc) + manhattan rc gl" using stale by (auto simp: d_def)
    then have "AStar_step now s = Inr ?s0"
      using Cons ent sd frc by (simp add: AStar_step_def Let_def)
    ultimately show ?thesis using r0 l by (intro exI [of _ ?s0] exI [of _ ?a]) simp
  next
    case live: True
    then have nd_eq: "nat d = aR a rc" by simp
    have feq: "f = int (aR a rc) + manhattan rc gl" using live by (simp add: d_def)
    let ?s1 = "?s0\<lparr> explored := explored ?s0 + 1, s_dirty := insert rc (s_dirty ?s0) \<rparr>"
    have r1: "rel_AStar g st gl ?s1 ?a" using r0 by (simp add: rel_AStar_def)
    show ?thesis
    proof (cases "rc = gl")
      case True
      from reconstruct_ok [OF c _ rcD, of "parent_A s"] r
      obtain p where p: "reconstruct (parent_A s) st rc = Inr p" "good_path g st rc p"
        by (auto simp: rel_AStar_def)
      let ?b = "a\<lparr> aQ := ?Q, aDone := True, aPath := Some p \<rparr>"
      let ?s = "?s1\<lparr> s_done := True, path := Some p, t1 := now \<rparr>"
      have "AI g st gl ?b"
        using AI_goal [OF ai nd, of p ?Q] p(2) True Q by simp
      moreover have "rel_AStar g st gl ?s ?b" using r Cons by (simp add: rel_AStar_def)
      moreover have "AStar_step now s = Inr ?s"
        using Cons ent sd True p(1) r feq frc by (simp add: AStar_step_def rel_AStar_def Let_def)
      ultimately show ?thesis by (intro exI [of _ ?s] exI [of _ ?b]) simp
    next
      case False
      have x: "AIx g st gl rc ?a" using AI_pop_expand [OF ai nd _ False] e nd_eq by simp
      from search_neighbors_nbr [OF wf, of rc]
      obtain ns where ns: "search_neighbors g rc = Inr ns" "set ns = {q. nbr g rc q}" by blast
      from AStar_fold_sim [OF x r1, of ns] ns(2)
      obtain s' a' where a': "foldE (AStar_visit rc) ns ?s1 = Inr s'" "rel_AStar g st gl s' a'"
          "AIx g st gl rc a'" "load g st a' \<le> load g st ?a" "set ns \<subseteq> aD a'"
        by auto
      have "AI g st gl a'" using AIx_close [OF a'(3)] a'(5) ns(2) by auto
      moreover have "AStar_step now s = Inr s'"
        using Cons ent sd False ns(1) r feq frc a'(1)
        by (simp add: AStar_step_def rel_AStar_def Let_def)
      ultimately show ?thesis using a'(2,4) l
        by (intro exI [of _ s'] exI [of _ a']) simp
    qed
  qed
qed

lemma AStar_step_idle:
  assumes "rel_AStar g st gl s a" "aDone a"
  shows "\<exists>s'. AStar_step now s = Inr s' \<and> rel_AStar g st gl s' a"
  using assms by (auto simp: AStar_step_def rel_AStar_def finish_idle_def)

lemma AStar_runs:
  assumes wf: "wf_grid g" and n: "load g st (abs_init st) < length nows"
  shows "\<exists>s'. AStar_steps nows (AStar_init g st gl) = Inr s' \<and> s_done s'
     \<and> (path s' = None \<longleftrightarrow> \<not> reachable g st gl)
     \<and> (\<forall>p. path s' = Some p \<longrightarrow> good_path g st gl p)"
proof -
  have "\<exists>s' a'. steps_with AStar_step nows (AStar_init g st gl) = Inr s'
          \<and> rel_AStar g st gl s' a' \<and> AI g st gl a' \<and> aDone a'"
    by (rule run_to_done [where R = "rel_AStar g st gl" and a = "abs_init st"])
       (use AStar_step_sim [OF wf] AStar_step_idle rel_AStar_init AI_init n in blast)+
  then obtain s' a' where "AStar_steps nows (AStar_init g st gl) = Inr s'"
      "rel_AStar g st gl s' a'" "AI g st gl a'" "aDone a'"
    by blast
  then show ?thesis using AI_done_path [of g st gl a'] by (auto simp: rel_AStar_def)
qed

subsection \<open>How many steps are enough\<close>

lemma load_init: "load g st (abs_init st) = 2 * ((card (universe g st) - 1) * card (universe g st)) + 1"
proof -
  let ?U = "universe g st"
  have st: "st \<in> ?U" by (simp add: universe_def)
  have "potential g st (abs_init st) = (\<Sum>x\<in>?U. if x = st then 0 else card ?U)"
    by (simp add: potential_def abs_init_def cong: if_cong)
  also have "\<dots> = (\<Sum>x\<in>?U - {st}. card ?U)"
    using st by (simp add: sum.remove [of ?U st])
  also have "\<dots> = (card ?U - 1) * card ?U" using st by (simp add: card_Diff_singleton)
  finally show ?thesis by (simp add: load_def abs_init_def)
qed

lemma card_universe: "card (universe g st) \<le> nat (rows g) * nat (cols g) + 1"
proof -
  have "{p. in_bounds g (fst p) (snd p)} \<subseteq> {0..<rows g} \<times> {0..<cols g}"
    by (auto simp: in_bounds_def)
  then have "card {p. in_bounds g (fst p) (snd p)} \<le> card ({0..<rows g} \<times> {0..<cols g})"
    by (intro card_mono) simp_all
  then have "card {p. in_bounds g (fst p) (snd p)} \<le> nat (rows g) * nat (cols g)"
    by simp
  moreover have "card (universe g st) \<le> Suc (card {p. in_bounds g (fst p) (snd p)})"
    unfolding universe_def by (simp add: card_insert_if finite_inb)
  ultimately show ?thesis by simp
qed

lemma load_init_bound: "load g st (abs_init st) < search_bound g"
proof -
  define c where "c = card (universe g st)"
  define n where "n = nat (rows g) * nat (cols g) + 1"
  have cn: "c \<le> n" unfolding c_def n_def by (rule card_universe)
  have "(c - 1) * c \<le> c * c" by (rule mult_le_mono1) simp
  also have "\<dots> \<le> n * n" using cn by (rule mult_le_mono [OF _ cn])
  finally have "2 * ((c - 1) * c) + 1 < 2 * (n * n) + 2" by linarith
  then show ?thesis
    unfolding load_init search_bound_def power2_eq_square c_def n_def .
qed

lemma closed_unreachable:
  assumes "st \<in> S" "gl \<notin> S" and cl: "\<And>p q. p \<in> S \<Longrightarrow> nbr g p q \<Longrightarrow> q \<in> S"
  shows "\<not> reachable g st gl"
proof
  assume "reachable g st gl"
  then have "(nbr g)\<^sup>*\<^sup>* st gl" by (simp add: reachable_def)
  then have "gl \<in> S"
    by (induction rule: rtranclp_induct) (use assms(1) cl in blast)+
  then show False using assms(2) by simp
qed

lemma get_metrics_no_path: "path s = None \<Longrightarrow> m_path_len (get_metrics ms now s) = EmptyString"
  by (simp add: get_metrics_def)

section \<open>C5: a goal that cannot be reached\<close>

text \<open>
  C5, as stated, has \<open>get_path()\<close> return an empty path and the \<open>path_len\<close> entry equal
  to 0.  In the ChatGPT5 OneShot variant \<open>path\<close> stays \<open>None\<close> and \<open>get_metrics\<close> writes
  the empty string for \<open>path_len\<close>: on the three by three corridor with the goal at
  the corner \<open>(0, 0)\<close>, which no passage leads to, BFS is done after three steps with
  no path and \<open>path_len\<close> the empty string, not 0.
\<close>

theorem C5_unreachable_counterexample:
  "\<not> reachable corridor3 (1, 1) (0, 0)
   \<and> bindE (BFS_steps [1, 2, 3] (BFS_init corridor3 (1, 1) (0, 0)))
       (\<lambda>s. Inr (is_done s, path s, m_path_len (get_metrics whole_ms 4 s)))
     = Inr (True, None, EmptyString)
   \<and> EmptyString \<noteq> PathLen 0"
proof -
  have "\<not> reachable corridor3 (1, 1) (0, 0)"
    by (rule closed_unreachable [where S = "{(1, 1), (1, 2)}"])
       (auto simp: nbr_def in_bounds_def cell_def corridor3_def)
  moreover have "bindE (BFS_steps [1, 2, 3] (BFS_init corridor3 (1, 1) (0, 0)))
       (\<lambda>s. Inr (is_done s, path s, m_path_len (get_metrics whole_ms 4 s)))
     = Inr (True, None, EmptyString)"
    by (simp add: BFS_step_def BFS_init_def BFS.defs BFS_visit_def eval_search
      is_done_def get_metrics_def)
  ultimately show ?thesis by simp
qed

text \<open>
  C5 (amended): on a well-formed grid where the goal cannot be reached from the
  start through passages, each of BFS, DFS, Dijkstra and A* (ChatGPT5 OneShot), given
  at least \<open>search_bound g\<close> calls of \<open>step()\<close>, raises nothing and ends with
  \<open>is_done()\<close> true, \<open>path\<close> equal to \<open>None\<close> and the \<open>path_len\<close> entry of \<open>get_metrics()\<close>
  equal to the empty string.
\<close>

theorem C5_unreachable_goal:
  assumes "wf_grid g" and "\<not> reachable g st gl" and "search_bound g \<le> length nows"
  shows "(\<exists>s. BFS_steps nows (BFS_init g st gl) = Inr s \<and> is_done s \<and> path s = None
            \<and> m_path_len (get_metrics ms now s) = EmptyString)
       \<and> (\<exists>s. DFS_steps nows (DFS_init g st gl) = Inr s \<and> is_done s \<and> path s = None
            \<and> m_path_len (get_metrics ms now s) = EmptyString)
       \<and> (\<exists>s. Dijkstra_steps nows (Dijkstra_init g st gl) = Inr s \<and> is_done s \<and> path s = None
            \<and> m_path_len (get_metrics ms now s) = EmptyString)
       \<and> (\<exists>s. AStar_steps nows (AStar_init g st gl) = Inr s \<and> is_done s \<and> path s = None
            \<and> m_path_len (get_metrics ms now s) = EmptyString)"
proof -
  have n: "load g st (abs_init st) < length nows"
    using load_init_bound [of g st] assms(3) by simp
  show ?thesis
  proof (intro conjI)
    from BFS_runs [OF assms(1) n, of gl] assms(2)
    show "\<exists>s. BFS_steps nows (BFS_init g st gl) = Inr s \<and> is_done s \<and> path s = None
            \<and> m_path_len (get_metrics ms now s) = EmptyString"
      by (auto simp: is_done_def get_metrics_no_path)
    from DFS_runs [OF assms(1) n, of gl] assms(2)
    show "\<exists>s. DFS_steps nows (DFS_init g st gl) = Inr s \<and> is_done s \<and> path s = None
            \<and> m_path_len (get_metrics ms now s) = EmptyString"
      by (auto simp: is_done_def get_metrics_no_path)
    from Dijkstra_runs [OF assms(1) n, of gl] assms(2)
    show "\<exists>s. Dijkstra_steps nows (Dijkstra_init g st gl) = Inr s \<and> is_done s \<and> path s = None
            \<and> m_path_len (get_metrics ms now s) = EmptyString"
      by (auto simp: is_done_def get_metrics_no_path)
    from AStar_runs [OF assms(1) n, of gl] assms(2)
    show "\<exists>s. AStar_steps nows (AStar_init g st gl) = Inr s \<and> is_done s \<and> path s = None
            \<and> m_path_len (get_metrics ms now s) = EmptyString"
      by (auto simp: is_done_def get_metrics_no_path)
  qed
qed

text \<open>The corridor with the goal at the corner \<open>(0, 0)\<close> meets the hypotheses of C5.\<close>

theorem C5_unreachable_goal_witness:
  "wf_grid corridor3 \<and> \<not> reachable corridor3 (1, 1) (0, 0)
   \<and> search_bound corridor3 \<le> length (replicate 202 (1 :: real))
   \<and> (\<exists>s. BFS_steps (replicate 202 1) (BFS_init corridor3 (1, 1) (0, 0)) = Inr s \<and> is_done s
         \<and> path s = None \<and> m_path_len (get_metrics whole_ms 2 s) = EmptyString)
   \<and> (\<exists>s. DFS_steps (replicate 202 1) (DFS_init corridor3 (1, 1) (0, 0)) = Inr s \<and> is_done s
         \<and> path s = None \<and> m_path_len (get_metrics whole_ms 2 s) = EmptyString)
   \<and> (\<exists>s. Dijkstra_steps (replicate 202 1) (Dijkstra_init corridor3 (1, 1) (0, 0)) = Inr s
         \<and> is_done s \<and> path s = None \<and> m_path_len (get_metrics whole_ms 2 s) = EmptyString)
   \<and> (\<exists>s. AStar_steps (replicate 202 1) (AStar_init corridor3 (1, 1) (0, 0)) = Inr s
         \<and> is_done s \<and> path s = None \<and> m_path_len (get_metrics whole_ms 2 s) = EmptyString)"
proof -
  have w: "wf_grid corridor3"
    by (simp add: wf_grid_def corridor3_def)
  have u: "\<not> reachable corridor3 (1, 1) (0, 0)"
    by (rule closed_unreachable [where S = "{(1, 1), (1, 2)}"])
       (auto simp: nbr_def in_bounds_def cell_def corridor3_def)
  have b: "search_bound corridor3 \<le> length (replicate 202 (1 :: real))"
    by (simp add: search_bound_def corridor3_def)
  show ?thesis
    using C5_unreachable_goal [OF w u b, where now = 2 and ms = whole_ms] w u b by blast
qed

end
